theory Spec2Isabelle
  imports Complex_Main
begin

section \<open>Settings and character classes\<close>

text \<open>
  The module \<^verbatim>\<open>settings\<close> (\<^verbatim>\<open>SENTENCE_END_CHARS\<close>, \<^verbatim>\<open>SENTENCE_START_TOKEN\<close>,
  \<^verbatim>\<open>SENTENCE_END_TOKEN\<close>) is imported by \<^verbatim>\<open>main.py\<close> but its values are not part of
  the source at hand, so every function that reads one of the three constants takes them
  as a parameter of type \<open>settings\<close>.

  Python strings are modelled as \<open>string\<close>. Characters are read as ASCII: the
  classes below (\<^verbatim>\<open>string.punctuation\<close>, the white space of \<^verbatim>\<open>str.split\<close>, the cased
  letters of \<^verbatim>\<open>str.title\<close> and \<^verbatim>\<open>str.lower\<close>) are the ASCII members of Python's classes.
\<close>

record settings =
  SENTENCE_END_CHARS :: "char list"
  SENTENCE_START_TOKEN :: string
  SENTENCE_END_TOKEN :: string

text \<open>\<^verbatim>\<open>string.punctuation\<close>, in Python's order.\<close>

definition punctuation :: "char list" where
  "punctuation =
    [CHR ''!'', CHR 0x22, CHR ''#'', CHR ''$'', CHR ''%'', CHR ''&'', CHR 0x27, CHR ''('',
     CHR '')'', CHR ''*'', CHR ''+'', CHR '','', CHR ''-'', CHR ''.'', CHR ''/'', CHR '':'',
     CHR '';'', CHR ''<'', CHR ''='', CHR ''>'', CHR ''?'', CHR ''@'', CHR ''['', CHR 0x5C,
     CHR '']'', CHR ''^'', CHR ''_'', CHR 0x60, CHR ''{'', CHR ''|'', CHR ''}'', CHR ''~'']"

text \<open>
  The characters \<^verbatim>\<open>str.split()\<close> (called without a separator) treats as white space:
  tab, line feed, vertical tab, form feed, carriage return, the four separators
  \<^verbatim>\<open>\x1c\<close> to \<^verbatim>\<open>\x1f\<close>, and the space.
\<close>

definition whitespace :: "char list" where
  "whitespace =
    [CHR 0x09, CHR 0x0A, CHR 0x0B, CHR 0x0C, CHR 0x0D,
     CHR 0x1C, CHR 0x1D, CHR 0x1E, CHR 0x1F, CHR 0x20]"

section \<open>Corpus.tokenize\<close>

text \<open>
  \<^verbatim>\<open>str.split()\<close>: the maximal runs of characters that are not white space, in order.
  The first argument of \<open>split_from\<close> is the run read so far.
\<close>

fun split_from :: "string \<Rightarrow> string \<Rightarrow> string list" where
  "split_from word [] = (if word = [] then [] else [word])"
| "split_from word (c # cs) =
     (if c \<in> set whitespace
      then (if word = [] then split_from [] cs else word # split_from [] cs)
      else split_from (word @ [c]) cs)"

definition str_split :: "string \<Rightarrow> string list" where
  "str_split s = split_from [] s"

text \<open>
  The first \<^verbatim>\<open>while\<close> loop of \<^verbatim>\<open>tokenize\<close>:
  \<^verbatim>\<open>while token and token[0] in string.punctuation:
      special_chars_before_word.append(token[0]); token = token[1:]\<close>
  The state is the pair of \<^verbatim>\<open>special_chars_before_word\<close> and \<^verbatim>\<open>token\<close>.
\<close>

fun strip_before :: "string list \<Rightarrow> string \<Rightarrow> string list \<times> string" where
  "strip_before special_chars_before_word [] = (special_chars_before_word, [])"
| "strip_before special_chars_before_word (c # cs) =
     (if c \<in> set punctuation
      then strip_before (special_chars_before_word @ [[c]]) cs
      else (special_chars_before_word, c # cs))"

text \<open>
  The second \<^verbatim>\<open>while\<close> loop:
  \<^verbatim>\<open>while token and token[-1] in string.punctuation:
      special_chars_after_word.append(token[-1])
      if token[-1] in SENTENCE_END_CHARS:
          special_chars_after_word.append(SENTENCE_END_TOKEN)
      token = token[:-1]\<close>
  It reads the word from its right end and appends to \<^verbatim>\<open>special_chars_after_word\<close>
  in the order in which it reads.
\<close>

function strip_after :: "settings \<Rightarrow> string list \<Rightarrow> string \<Rightarrow> string list \<times> string" where
  "strip_after st special_chars_after_word token =
     (if token \<noteq> [] \<and> last token \<in> set punctuation
      then strip_after st
             (special_chars_after_word @ [[last token]] @
                (if last token \<in> set (SENTENCE_END_CHARS st) then [SENTENCE_END_TOKEN st] else []))
             (butlast token)
      else (special_chars_after_word, token))"
  by pat_completeness auto
termination
  by (relation "measure (\<lambda>(st, acc, token). length token)") auto

declare strip_after.simps [simp del]

text \<open>The body of the \<^verbatim>\<open>for token in tokens\<close> loop: the symbols one raw word contributes.\<close>

definition tokenize_word :: "settings \<Rightarrow> string \<Rightarrow> string list" where
  "tokenize_word st token0 =
     (case strip_before [] token0 of
        (special_chars_before_word, token1) \<Rightarrow>
          (case strip_after st [] token1 of
             (special_chars_after_word, token) \<Rightarrow>
               special_chars_before_word @ [token] @ special_chars_after_word))"

definition tokenize :: "settings \<Rightarrow> string \<Rightarrow> string list" where
  "tokenize st s = concat (map (tokenize_word st) (str_split s))"

text \<open>
  An instance of the settings for evaluating the code on concrete lines: full stop,
  exclamation mark and question mark end a sentence.
\<close>

definition example_settings :: settings where
  "example_settings =
     \<lparr>SENTENCE_END_CHARS = ''.!?'', SENTENCE_START_TOKEN = ''<s>'', SENTENCE_END_TOKEN = ''</s>''\<rparr>"

section \<open>Corpus iteration\<close>

text \<open>
  \<^verbatim>\<open>Corpus.__iter__\<close> lowercases every line of the processed files and tokenizes it.
  The lines themselves come from the file system; the model takes them as a list.
\<close>

definition ascii_lowercase :: string where
  "ascii_lowercase = ''abcdefghijklmnopqrstuvwxyz''"

definition ascii_uppercase :: string where
  "ascii_uppercase = ''ABCDEFGHIJKLMNOPQRSTUVWXYZ''"

definition char_lower :: "char \<Rightarrow> char" where
  "char_lower c = (case map_of (zip ascii_uppercase ascii_lowercase) c of Some l \<Rightarrow> l | None \<Rightarrow> c)"

definition char_upper :: "char \<Rightarrow> char" where
  "char_upper c = (case map_of (zip ascii_lowercase ascii_uppercase) c of Some u \<Rightarrow> u | None \<Rightarrow> c)"

definition is_cased :: "char \<Rightarrow> bool" where
  "is_cased c = (c \<in> set ascii_lowercase \<or> c \<in> set ascii_uppercase)"

definition lower :: "string \<Rightarrow> string" where
  "lower s = map char_lower s"

definition corpus_iter :: "settings \<Rightarrow> string list \<Rightarrow> string list list" where
  "corpus_iter st lines = map (\<lambda>line. tokenize st (lower line)) lines"

section \<open>NGramModel: training\<close>

text \<open>
  A Python \<^verbatim>\<open>dict\<close> keeps its keys in insertion order, and \<^verbatim>\<open>generate_token\<close> walks
  them in that order, so a dictionary is an association list with distinct keys, the
  newest key last. \<^verbatim>\<open>ngram_dict\<close> is a \<^verbatim>\<open>defaultdict\<close> of \<^verbatim>\<open>defaultdict(int)\<close>: a context
  (a tuple of symbols) maps to the dictionary of its next words.

  During counting the inner values are integers; the last loop of \<^verbatim>\<open>init_ngram_dict\<close>
  replaces them by quotients. The counts are natural numbers here; the quotients are
  Python floats, which are IEEE 754 binary64 numbers. A float is modelled by the rational
  number it denotes, and every function that divides or adds floats takes the rounding
  applied to the exact result as its first argument. The rounding \<open>binary64\<close> below is
  that of Python; the rounding \<open>exact\<close> is exact rational arithmetic, for comparison.
\<close>

type_synonym 'v table = "(string list \<times> (string \<times> 'v) list) list"

type_synonym rounding = "rat \<Rightarrow> rat"

definition exact :: rounding where
  "exact x = x"

text \<open>
  Rounding to the nearest binary64 number, ties to the even significand: the result of
  \<^verbatim>\<open>int / int\<close> and of \<^verbatim>\<open>float + float\<close> in Python is the exact quotient or sum, rounded
  so. \<open>bitlen_nat n\<close> is the number of binary digits of \<open>n\<close>, \<open>pow2 e\<close> is \<open>2\<close> to the power
  \<open>e\<close>, and \<open>ilog2 x\<close> is the exponent \<open>e\<close> with \<open>2\<^sup>e \<le> x < 2\<^sup>e\<^sup>+\<^sup>1\<close> for a positive \<open>x\<close>. A
  binary64 number has 53 significant bits, so a number in that binade is rounded to a
  multiple of \<open>2\<^sup>e\<^sup>-\<^sup>5\<^sup>2\<close>. The exponent is not bounded here: overflow and subnormal
  numbers are not modelled. The quotients \<^verbatim>\<open>count / total\<close> and their partial sums lie
  between \<open>1 / total\<close> and 2, in the normal range for every total below \<open>2\<^sup>1\<^sup>0\<^sup>2\<^sup>2\<close>.
\<close>

fun bitlen_nat :: "nat \<Rightarrow> nat" where
  "bitlen_nat n = (if n = 0 then 0 else Suc (bitlen_nat (n div 2)))"

declare bitlen_nat.simps [simp del]

definition pow2 :: "int \<Rightarrow> rat" where
  "pow2 e = (if 0 \<le> e then 2 ^ nat e else 1 / 2 ^ nat (- e))"

definition ilog2 :: "rat \<Rightarrow> int" where
  "ilog2 x = (if 1 \<le> x then int (bitlen_nat (nat \<lfloor>x\<rfloor>)) - 1
              else - int (bitlen_nat (nat (\<lceil>1 / x\<rceil> - 1))))"

definition round_half_even :: "rat \<Rightarrow> int" where
  "round_half_even q =
     (let f = \<lfloor>q\<rfloor>; d = q - of_int f
      in if d < 1 / 2 then f else if 1 / 2 < d then f + 1 else if even f then f else f + 1)"

definition binary64 :: rounding where
  "binary64 x =
     (if x = 0 then 0
      else (let a = \<bar>x\<bar>; u = pow2 (ilog2 a - 52)
            in sgn x * of_int (round_half_even (a / u)) * u))"

text \<open>
  \<^verbatim>\<open>d[k] = f(d[k])\<close> on a \<^verbatim>\<open>defaultdict\<close> whose factory returns \<open>dflt\<close>: a key that is
  present keeps its place, a key that is missing is appended.
\<close>

primrec dd_modify :: "'v \<Rightarrow> 'k \<Rightarrow> ('v \<Rightarrow> 'v) \<Rightarrow> ('k \<times> 'v) list \<Rightarrow> ('k \<times> 'v) list" where
  "dd_modify dflt k f [] = [(k, f dflt)]"
| "dd_modify dflt k f (p # ps) =
     (if fst p = k then (k, f (snd p)) # ps else p # dd_modify dflt k f ps)"

text \<open>
  Reading \<^verbatim>\<open>d[k]\<close> on a \<^verbatim>\<open>defaultdict\<close>: a missing key is inserted with the factory's
  value before it is returned, so the read returns the dictionary as well.
\<close>

definition dd_getitem :: "'v \<Rightarrow> 'k \<Rightarrow> ('k \<times> 'v) list \<Rightarrow> ('k \<times> 'v) list \<times> 'v" where
  "dd_getitem dflt k d =
     (case map_of d k of Some v \<Rightarrow> (d, v) | None \<Rightarrow> (d @ [(k, dflt)], dflt))"

text \<open>\<^verbatim>\<open>ngram_dict[context][word] += 1\<close>\<close>

definition increment :: "string list \<Rightarrow> string \<Rightarrow> nat table \<Rightarrow> nat table" where
  "increment context word ngram_dict =
     dd_modify [] context (dd_modify 0 word (\<lambda>c. c + 1)) ngram_dict"

text \<open>The slice \<^verbatim>\<open>xs[a:b]\<close> for indices that are not negative.\<close>

definition slice :: "'a list \<Rightarrow> nat \<Rightarrow> nat \<Rightarrow> 'a list" where
  "slice xs a b = take (b - a) (drop a xs)"

text \<open>
  The body of \<^verbatim>\<open>for tokens in corpus\<close>, for an order \<open>n\<close> of at least 1 (for such an
  order every index of the source is non-negative). The source computes
  \<^verbatim>\<open>context_start_idx = i - self.n + 1\<close> on integers; on natural numbers the same value
  is \<open>i + 1 - n\<close>, since \<open>n - 1 \<le> i\<close>.
\<close>

definition count_line :: "settings \<Rightarrow> nat \<Rightarrow> string list \<Rightarrow> nat table \<Rightarrow> nat table" where
  "count_line st n line ngram_dict =
     (let tokens = replicate (n - 1) (SENTENCE_START_TOKEN st) @ line
      in fold (\<lambda>i d. increment (slice tokens (i + 1 - n) i) (tokens ! i) d)
           [n - 1 ..< length tokens] ngram_dict)"

definition count_corpus :: "settings \<Rightarrow> nat \<Rightarrow> string list list \<Rightarrow> nat table" where
  "count_corpus st n corpus = fold (count_line st n) corpus []"

text \<open>
  \<^verbatim>\<open>total = sum(word_counts.values()); word_counts[word] /= total\<close> for every word.
  No context of \<open>count_corpus\<close> has the total 0 (lemma \<open>count_corpus_total_pos\<close> below),
  so the division never raises.
\<close>

definition normalize_counts :: "rounding \<Rightarrow> (string \<times> nat) list \<Rightarrow> (string \<times> rat) list" where
  "normalize_counts rnd word_counts =
     (let total = sum_list (map snd word_counts)
      in map (\<lambda>(word, c). (word, rnd (of_nat c / of_nat total))) word_counts)"

definition to_probabilities :: "rounding \<Rightarrow> nat table \<Rightarrow> rat table" where
  "to_probabilities rnd ngram_dict =
     map (\<lambda>(context, word_counts). (context, normalize_counts rnd word_counts)) ngram_dict"

definition init_ngram_dict :: "rounding \<Rightarrow> settings \<Rightarrow> nat \<Rightarrow> string list list \<Rightarrow> rat table" where
  "init_ngram_dict rnd st n corpus = to_probabilities rnd (count_corpus st n corpus)"

section \<open>NGramModel: generation\<close>

text \<open>
  The only exception the source raises itself: \<^verbatim>\<open>Exception('No token was generated')\<close>.
\<close>

datatype error = No_token_generated

text \<open>
  The \<^verbatim>\<open>for\<close> loop of \<^verbatim>\<open>generate_token\<close> over the entries of the context's dictionary.
  The keys of a dictionary are distinct, so the value the source looks up under
  \<^verbatim>\<open>next_word\<close> is the one paired with it.
\<close>

fun pick :: "rounding \<Rightarrow> rat \<Rightarrow> rat \<Rightarrow> (string \<times> rat) list \<Rightarrow> error + string" where
  "pick rnd probability probability_sum [] = Inl No_token_generated"
| "pick rnd probability probability_sum ((next_word, p) # rest) =
     (if probability \<le> rnd (probability_sum + p) then Inr next_word
      else pick rnd probability (rnd (probability_sum + p)) rest)"

text \<open>
  \<^verbatim>\<open>generate_token\<close>. The value of \<^verbatim>\<open>random.random()\<close> is the argument \<open>probability\<close>.
  The table is read through \<^verbatim>\<open>defaultdict.__getitem__\<close>, so it is returned as well.
\<close>

definition generate_token ::
    "rounding \<Rightarrow> rat table \<Rightarrow> string list \<Rightarrow> rat \<Rightarrow> rat table \<times> (error + string)" where
  "generate_token rnd ngram_dict context probability =
     (case dd_getitem [] context ngram_dict of
        (ngram_dict', word_probs) \<Rightarrow> (ngram_dict', pick rnd probability 0 word_probs))"

text \<open>
  \<^verbatim>\<open>str.title()\<close>: a cased character is put in upper case when the character before it
  is not cased, and in lower case otherwise.
\<close>

fun title_from :: "bool \<Rightarrow> string \<Rightarrow> string" where
  "title_from previous_is_cased [] = []"
| "title_from previous_is_cased (c # cs) =
     (if previous_is_cased then char_lower c else char_upper c) # title_from (is_cased c) cs"

definition title :: "string \<Rightarrow> string" where
  "title s = title_from False s"

text \<open>
  The rendering at the end of the loop body of \<^verbatim>\<open>__call__\<close>. The test
  \<^verbatim>\<open>token in set(string.punctuation)\<close> holds for the one-character strings of
  punctuation.
\<close>

definition append_token :: "string \<Rightarrow> string \<Rightarrow> string" where
  "append_token sentence token =
     (if token \<in> set (map (\<lambda>c. [c]) punctuation) then sentence @ token
      else if sentence = [] then title token
      else sentence @ '' '' @ token)"

text \<open>
  The \<^verbatim>\<open>while True\<close> loop of \<^verbatim>\<open>__call__\<close>. Every iteration draws one random number; the
  last argument is the list of the draws still to come. When the draws are used up and
  the loop has not left, the result is \<open>None\<close>: the loop is still running. \<open>Some (Inr s)\<close>
  is the returned sentence, \<open>Some (Inl e)\<close> a raised exception.
\<close>

fun call_loop ::
    "rounding \<Rightarrow> settings \<Rightarrow> rat table \<Rightarrow> string \<Rightarrow> string list \<Rightarrow> rat list
      \<Rightarrow> rat table \<times> (error + string) option" where
  "call_loop rnd st ngram_dict sentence context [] = (ngram_dict, None)"
| "call_loop rnd st ngram_dict sentence context (probability # draws) =
     (case generate_token rnd ngram_dict context probability of
        (ngram_dict', Inl e) \<Rightarrow> (ngram_dict', Some (Inl e))
      | (ngram_dict', Inr token) \<Rightarrow>
          (if token = SENTENCE_END_TOKEN st then (ngram_dict', Some (Inr sentence))
           else call_loop rnd st ngram_dict' (append_token sentence token)
                  (tl (context @ [token])) draws))"

text \<open>
  The values the variable \<^verbatim>\<open>token\<close> takes in the iterations of that loop, in order: the
  sampled symbols of a call. The list ends with the end-of-sentence marker when the loop
  leaves through \<^verbatim>\<open>break\<close>.
\<close>

fun sampled_tokens ::
    "rounding \<Rightarrow> settings \<Rightarrow> rat table \<Rightarrow> string list \<Rightarrow> rat list \<Rightarrow> string list" where
  "sampled_tokens rnd st ngram_dict ctx [] = []"
| "sampled_tokens rnd st ngram_dict ctx (probability # draws) =
     (case generate_token rnd ngram_dict ctx probability of
        (ngram_dict', Inl e) \<Rightarrow> []
      | (ngram_dict', Inr token) \<Rightarrow>
          (if token = SENTENCE_END_TOKEN st then [token]
           else token # sampled_tokens rnd st ngram_dict' (tl (ctx @ [token])) draws))"

text \<open>\<^verbatim>\<open>NGramModel.__call__\<close>, on the fields \<^verbatim>\<open>n\<close> and \<^verbatim>\<open>ngram_dict\<close> of the model.\<close>

definition call ::
    "rounding \<Rightarrow> settings \<Rightarrow> nat \<Rightarrow> rat table \<Rightarrow> rat list \<Rightarrow> rat table \<times> (error + string) option" where
  "call rnd st n ngram_dict draws =
     call_loop rnd st ngram_dict [] (replicate (n - 1) (SENTENCE_START_TOKEN st)) draws"

text \<open>
  \<^verbatim>\<open>NGramModel.__init__\<close> stores \<^verbatim>\<open>n\<close> and the table. It has no \<^verbatim>\<open>raise\<close> statement and
  no test on the corpus or on the table, so it returns a model for every corpus.
\<close>

record ngram_model =
  model_n :: nat
  model_ngram_dict :: "rat table"

definition NGramModel_init ::
    "rounding \<Rightarrow> settings \<Rightarrow> nat \<Rightarrow> string list list \<Rightarrow> error + ngram_model" where
  "NGramModel_init rnd st n corpus =
     Inr \<lparr>model_n = n, model_ngram_dict = init_ngram_dict rnd st n corpus\<rparr>"

section \<open>Invariants of the counting loop\<close>

text \<open>
  A dictionary of next words as the counting loop leaves it: it has an entry, and every
  count is positive.
\<close>

definition counted :: "(string \<times> nat) list \<Rightarrow> bool" where
  "counted word_counts = (word_counts \<noteq> [] \<and> (\<forall>p \<in> set word_counts. 0 < snd p))"

definition all_counted :: "nat table \<Rightarrow> bool" where
  "all_counted d = (\<forall>e \<in> set d. counted (snd e))"

text \<open>
  A rounding whose relative error on the numbers that are not negative is at most
  \<open>2\<^sup>-\<^sup>5\<^sup>3\<close>: \<open>binary64\<close> is one (lemma \<open>accurate_binary64\<close>), and \<open>exact\<close>.
\<close>

definition accurate :: "rounding \<Rightarrow> bool" where
  "accurate rnd = (\<forall>x\<ge>0. \<bar>rnd x - x\<bar> \<le> x / 2 ^ 53)"


text \<open>The words that have an entry in the dictionary of some context of a table.\<close>

definition words_of :: "'v table \<Rightarrow> string set" where
  "words_of d = fst ` set (concat (map snd d))"

text \<open>
  \<open>has_word d ctx w\<close>: the context \<open>ctx\<close> is a key of the table and \<open>w\<close> has an entry in its
  dictionary. \<open>window st n line i\<close>: the context the training loop uses for the token
  \<open>i\<close> of a line, the \<open>n - 1\<close> tokens before it in the padded line.
\<close>

definition has_word :: "'v table \<Rightarrow> string list \<Rightarrow> string \<Rightarrow> bool" where
  "has_word d ctx w = (\<exists>word_probs. map_of d ctx = Some word_probs \<and> w \<in> fst ` set word_probs)"

definition window :: "settings \<Rightarrow> nat \<Rightarrow> string list \<Rightarrow> nat \<Rightarrow> string list" where
  "window st n line i =
     take (n - 1) (drop i (replicate (n - 1) (SENTENCE_START_TOKEN st) @ line))"

section \<open>Properties of the tokenizer\<close>

lemma str_split_hello_world: "str_split ''hello, world!'' = [''hello,'', ''world!'']"
  by (simp add: str_split_def whitespace_def)

text \<open>
  C6. Tokenizing the line \<^verbatim>\<open>hello, world!\<close>, when the comma is not a sentence-end
  character and the exclamation mark is one, yields exactly the five symbols
  \<^verbatim>\<open>hello\<close>, \<^verbatim>\<open>,\<close>, \<^verbatim>\<open>world\<close>, \<^verbatim>\<open>!\<close> and the end-of-sentence marker.
\<close>

theorem tokenize_hello_world:
  assumes "CHR '','' \<notin> set (SENTENCE_END_CHARS st)"
    and "CHR ''!'' \<in> set (SENTENCE_END_CHARS st)"
  shows "tokenize st ''hello, world!'' =
           [''hello'', '','', ''world'', ''!'', SENTENCE_END_TOKEN st]"
proof -
  have w1: "tokenize_word st ''hello,'' = [''hello'', '','']"
    using assms(1) by (simp add: tokenize_word_def strip_after.simps punctuation_def)
  have w2: "tokenize_word st ''world!'' = [''world'', ''!'', SENTENCE_END_TOKEN st]"
    using assms(2) by (simp add: tokenize_word_def strip_after.simps punctuation_def)
  show ?thesis
    by (simp only: tokenize_def str_split_hello_world list.map concat.simps w1 w2 append.simps)
qed

theorem tokenize_hello_world_witness:
  "CHR '','' \<notin> set (SENTENCE_END_CHARS example_settings) \<and>
   CHR ''!'' \<in> set (SENTENCE_END_CHARS example_settings) \<and>
   tokenize example_settings ''hello, world!'' = [''hello'', '','', ''world'', ''!'', ''</s>'']"
proof -
  have a: "CHR '','' \<notin> set (SENTENCE_END_CHARS example_settings)"
    by (simp add: example_settings_def)
  have b: "CHR ''!'' \<in> set (SENTENCE_END_CHARS example_settings)"
    by (simp add: example_settings_def)
  have c: "SENTENCE_END_TOKEN example_settings = ''</s>''"
    by (simp add: example_settings_def)
  show ?thesis
    using a b tokenize_hello_world [OF a b] by (simp only: c simp_thms)
qed

lemma tokenize_word_end_paren:
  "tokenize_word example_settings ''end.)'' = [''end'', '')'', ''.'', ''</s>'']"
  by (simp add: tokenize_word_def strip_after.simps punctuation_def example_settings_def)

text \<open>
  C5. The claim is that the punctuation stripped from the end of a raw word is emitted in
  the order in which it stands in the word. The second loop appends while it reads the
  word from the right, so the code emits the run reversed: for the word \<^verbatim>\<open>end.)\<close> the
  symbols after \<^verbatim>\<open>end\<close> are \<^verbatim>\<open>)\<close>, then \<^verbatim>\<open>.\<close> and the end-of-sentence marker, where the
  order in the word would give \<^verbatim>\<open>.\<close>, the marker, then \<^verbatim>\<open>)\<close>. (The first loop, for the
  punctuation at the start of a word, keeps the order of the word.)
\<close>

theorem tokenize_trailing_run_reversed:
  "tokenize example_settings ''end.)'' = [''end'', '')'', ''.'', ''</s>'']"
  by (simp add: tokenize_def str_split_def whitespace_def tokenize_word_end_paren)

section \<open>Reading the table\<close>

lemma dd_getitem_absent:
  "k \<notin> fst ` set d \<Longrightarrow> dd_getitem dflt k d = (d @ [(k, dflt)], dflt)"
proof -
  assume "k \<notin> fst ` set d"
  then have "map_of d k = None" by (simp add: map_of_eq_None_iff)
  then show ?thesis by (simp add: dd_getitem_def)
qed

lemma dd_getitem_present:
  "map_of d k = Some v \<Longrightarrow> dd_getitem dflt k d = (d, v)"
  by (simp add: dd_getitem_def)

lemma generate_token_absent:
  "ctx \<notin> fst ` set ngram_dict \<Longrightarrow>
   generate_token rnd ngram_dict ctx probability =
     (ngram_dict @ [(ctx, [])], Inl No_token_generated)"
  by (simp add: generate_token_def dd_getitem_absent)

lemma generate_token_present:
  "map_of ngram_dict ctx = Some word_probs \<Longrightarrow>
   generate_token rnd ngram_dict ctx probability =
     (ngram_dict, pick rnd probability 0 word_probs)"
  by (simp add: generate_token_def dd_getitem_present)

lemma generate_token_cases:
  "(\<exists>res. generate_token rnd d c r = (d, res)) \<or>
   (c \<notin> fst ` set d \<and> generate_token rnd d c r = (d @ [(c, [])], Inl No_token_generated))"
proof (cases "map_of d c")
  case None
  then have "c \<notin> fst ` set d" by (simp add: map_of_eq_None_iff)
  then show ?thesis by (simp add: generate_token_absent)
next
  case (Some v)
  then show ?thesis by (simp add: generate_token_present)
qed

subsection \<open>Concrete runs\<close>

lemma corpus_hello: "corpus_iter example_settings [''hello''] = [[''hello'']]"
  by (simp add: corpus_iter_def lower_def char_lower_def ascii_uppercase_def ascii_lowercase_def
      tokenize_def str_split_def whitespace_def tokenize_word_def strip_after.simps punctuation_def)

lemma table_hello:
  "init_ngram_dict exact example_settings 2 [[''hello'']] = [([''<s>''], [(''hello'', 1)])]"
  by (simp add: init_ngram_dict_def count_corpus_def count_line_def increment_def slice_def
      to_probabilities_def normalize_counts_def exact_def example_settings_def)

lemma call_hello:
  "call exact example_settings 2 [([''<s>''], [(''hello'', 1)])] [0, 0] =
     ([([''<s>''], [(''hello'', 1)]), ([''hello''], [])], Some (Inl No_token_generated))"
  by (simp add: call_def generate_token_def dd_getitem_def exact_def example_settings_def
      append_token_def punctuation_def title_def)

subsection \<open>Unseen contexts\<close>

text \<open>
  C2. For every table and every context that is not a key of the table, a generation step
  at that context raises: \<^verbatim>\<open>generate_token\<close> returns no token, and the call of the model
  whose loop is at that context ends with the exception, whatever the draw. The exception
  is the source's \<^verbatim>\<open>Exception('No token was generated')\<close>, the only one it raises; the
  name \<^verbatim>\<open>DataSparsityError\<close> stands for it.
\<close>

theorem absent_context_raises:
  assumes "ctx \<notin> fst ` set ngram_dict"
  shows "snd (generate_token rnd ngram_dict ctx probability) = Inl No_token_generated \<and>
         snd (call_loop rnd st ngram_dict sentence ctx (probability # draws)) =
           Some (Inl No_token_generated)"
  using assms by (simp add: generate_token_absent)

theorem absent_context_raises_witness:
  "[''hello''] \<notin> fst ` set [([''<s>''], [(''hello'', 1::rat)])] \<and>
   snd (generate_token exact [([''<s>''], [(''hello'', 1)])] [''hello''] (1 / 2)) =
     Inl No_token_generated \<and>
   snd (call_loop exact example_settings [([''<s>''], [(''hello'', 1)])] ''Hello'' [''hello'']
          [1 / 2, 0]) = Some (Inl No_token_generated)"
proof -
  have a: "[''hello''] \<notin> fst ` set [([''<s>''], [(''hello'', 1::rat)])]" by simp
  show ?thesis
    using a absent_context_raises [OF a, of exact "1 / 2" example_settings "''Hello''" "[0]"]
    by simp
qed

subsection \<open>The table during generation\<close>

text \<open>
  C3, as claimed: the table is identical before and after every generation call, also one
  that fails at a context absent from the table. The table is a \<^verbatim>\<open>defaultdict\<close>, and
  \<^verbatim>\<open>generate_token\<close> reads it with \<^verbatim>\<open>self.ngram_dict[context]\<close>, which inserts a missing
  key. For the model of order 2 trained on the line \<^verbatim>\<open>hello\<close> the first draw gives
  \<^verbatim>\<open>hello\<close>, the context \<^verbatim>\<open>('hello',)\<close> is absent, and the failing call leaves it in the
  table.
\<close>

theorem generation_changes_table:
  "fst (call exact example_settings 2
         (init_ngram_dict exact example_settings 2 (corpus_iter example_settings [''hello'']))
         [0, 0])
   \<noteq> init_ngram_dict exact example_settings 2 (corpus_iter example_settings [''hello''])"
  by (simp add: corpus_hello table_hello call_hello)

text \<open>
  C3, amended. A generation call, from any state of its loop and for any draws, either
  leaves the table identical, or it fails at a context that is absent from the table and
  leaves the table with that one context appended, mapped to an empty distribution. Every
  entry that was in the table is unchanged in both cases.
\<close>

theorem call_loop_table:
  "fst (call_loop rnd st d sentence ctx draws) = d \<or>
   (\<exists>c. c \<notin> fst ` set d \<and>
        call_loop rnd st d sentence ctx draws = (d @ [(c, [])], Some (Inl No_token_generated)))"
proof (induction draws arbitrary: sentence ctx)
  case Nil
  then show ?case by simp
next
  case (Cons r draws)
  from generate_token_cases [of rnd d ctx r] show ?case
  proof
    assume "\<exists>res. generate_token rnd d ctx r = (d, res)"
    then obtain res where g: "generate_token rnd d ctx r = (d, res)" ..
    show ?thesis
    proof (cases res)
      case (Inl e)
      with g show ?thesis by simp
    next
      case (Inr token)
      with g Cons.IH [of "append_token sentence token" "tl (ctx @ [token])"]
      show ?thesis by simp
    qed
  next
    assume "ctx \<notin> fst ` set d \<and>
      generate_token rnd d ctx r = (d @ [(ctx, [])], Inl No_token_generated)"
    then show ?thesis by auto
  qed
qed

section \<open>Training on an empty corpus\<close>

lemma count_line_empty: "count_line st n [] d = d"
  by (simp add: count_line_def)

lemma fold_count_line_empty_lines:
  "concat corpus = [] \<Longrightarrow> fold (count_line st n) corpus d = d"
  by (induction corpus arbitrary: d) (simp_all add: count_line_empty)

lemma init_ngram_dict_empty_lines:
  "concat corpus = [] \<Longrightarrow> init_ngram_dict rnd st n corpus = []"
  by (simp add: init_ngram_dict_def count_corpus_def fold_count_line_empty_lines
      to_probabilities_def)

text \<open>
  C9, as claimed: on zero lines the construction of the model fails with an
  \<^verbatim>\<open>EmptyCorpusError\<close>. The source has no such check: the constructor returns a model, and
  its table is empty.
\<close>

theorem empty_corpus_returns_model:
  "NGramModel_init exact example_settings 1 (corpus_iter example_settings []) =
     Inr \<lparr>model_n = 1, model_ngram_dict = []\<rparr>"
  by (simp add: NGramModel_init_def corpus_iter_def init_ngram_dict_empty_lines)

text \<open>
  C9, amended. If training receives zero lines, or every line tokenizes to the empty
  sequence, the constructor returns a model whose table has no entries; the first
  generation call on it raises \<^verbatim>\<open>Exception('No token was generated')\<close> at its first step
  (and leaves the start context in the table, with an empty distribution).
\<close>

theorem empty_corpus_model:
  assumes "concat corpus = []"
  shows "NGramModel_init rnd st n corpus = Inr \<lparr>model_n = n, model_ngram_dict = []\<rparr> \<and>
         call rnd st n [] (r # rs) =
           ([(replicate (n - 1) (SENTENCE_START_TOKEN st), [])], Some (Inl No_token_generated))"
  using assms
  by (simp add: NGramModel_init_def init_ngram_dict_empty_lines call_def generate_token_absent)

theorem empty_corpus_model_witness:
  "concat [[], []::string list] = [] \<and>
   NGramModel_init exact example_settings 3 [[], []] = Inr \<lparr>model_n = 3, model_ngram_dict = []\<rparr> \<and>
   call exact example_settings 3 [] [1 / 2] =
     ([([''<s>'', ''<s>''], [])], Some (Inl No_token_generated))"
proof -
  have a: "concat [[], []::string list] = []" by simp
  have b: "replicate (3 - 1) (SENTENCE_START_TOKEN example_settings) = [''<s>'', ''<s>'']"
    by (simp add: example_settings_def numeral_2_eq_2)
  show ?thesis
    using a empty_corpus_model [OF a, of exact example_settings 3 "1 / 2" "[]"]
    by (simp only: b simp_thms)
qed

section \<open>Double-precision rounding\<close>

lemma floor_rat_numeral: "\<lfloor>(numeral a :: rat) / numeral b\<rfloor> = numeral a div numeral b"
  using floor_divide_of_int_eq [of "numeral a" "numeral b", where ?'a = rat] by simp

lemma ceiling_rat_numeral: "\<lceil>(numeral a :: rat) / numeral b\<rceil> = - (- numeral a div numeral b)"
  using floor_divide_of_int_eq [of "- numeral a" "numeral b", where ?'a = rat]
  by (simp add: ceiling_def)

lemma binary64_unfold:
  "binary64 x =
     (if x = 0 then 0
      else sgn x * of_int (round_half_even (\<bar>x\<bar> / pow2 (ilog2 \<bar>x\<bar> - 52))) *
           pow2 (ilog2 \<bar>x\<bar> - 52))"
  by (simp add: binary64_def Let_def)

lemma round_half_even_unfold:
  "round_half_even q =
     (if q - of_int \<lfloor>q\<rfloor> < 1 / 2 then \<lfloor>q\<rfloor>
      else if 1 / 2 < q - of_int \<lfloor>q\<rfloor> then \<lfloor>q\<rfloor> + 1
      else if even \<lfloor>q\<rfloor> then \<lfloor>q\<rfloor> else \<lfloor>q\<rfloor> + 1)"
  by (simp add: round_half_even_def Let_def)

lemmas binary64_eval = binary64_unfold ilog2_def pow2_def round_half_even_unfold bitlen_nat.simps
  floor_rat_numeral ceiling_rat_numeral


lemma bitlen_nat_upper: "n < 2 ^ bitlen_nat n"
proof (induction n rule: bitlen_nat.induct)
  case (1 n)
  show ?case
  proof (cases "n = 0")
    case True
    then show ?thesis by (simp add: bitlen_nat.simps)
  next
    case False
    with 1 have "n div 2 < 2 ^ bitlen_nat (n div 2)" by simp
    then have "n < 2 * 2 ^ bitlen_nat (n div 2)" by linarith
    with False show ?thesis by (simp add: bitlen_nat.simps [of n])
  qed
qed

lemma bitlen_nat_lower: "0 < n \<Longrightarrow> 2 ^ (bitlen_nat n - 1) \<le> n"
proof (induction n rule: bitlen_nat.induct)
  case (1 n)
  then have n: "n \<noteq> 0" by simp
  show ?case
  proof (cases "n div 2 = 0")
    case True
    with n show ?thesis by (simp add: bitlen_nat.simps [of n] bitlen_nat.simps [of 0])
  next
    case False
    with 1 n have "2 ^ (bitlen_nat (n div 2) - 1) \<le> n div 2" by simp
    moreover from False have "0 < bitlen_nat (n div 2)"
      by (simp add: bitlen_nat.simps [of "n div 2"])
    ultimately have "2 ^ bitlen_nat (n div 2) \<le> 2 * (n div 2)"
      by (cases "bitlen_nat (n div 2)") simp_all
    then have "2 ^ bitlen_nat (n div 2) \<le> n" by linarith
    with n show ?thesis by (simp add: bitlen_nat.simps [of n])
  qed
qed

lemma pow2_pos: "0 < pow2 e"
  by (simp add: pow2_def)

lemma pow2_powi: "pow2 e = 2 powi e"
  by (simp add: pow2_def power_int_def inverse_eq_divide power_one_over)

lemma pow2_diff: "pow2 (e - k) = pow2 e / pow2 k"
  by (simp add: pow2_powi power_int_diff)

lemma pow2_ilog2_le:
  assumes "0 < x"
  shows "pow2 (ilog2 x) \<le> x"
proof (cases "1 \<le> x")
  case True
  then have f: "1 \<le> \<lfloor>x\<rfloor>" by simp
  let ?n = "nat \<lfloor>x\<rfloor>"
  from f have n: "0 < ?n" by simp
  from n have b: "0 < bitlen_nat ?n" by (simp add: bitlen_nat.simps [of ?n])
  have "pow2 (ilog2 x) = 2 ^ (bitlen_nat ?n - 1)"
    using True b by (simp add: ilog2_def pow2_def nat_diff_distrib')
  also have "\<dots> \<le> of_nat ?n"
    using bitlen_nat_lower [OF n] by (metis of_nat_le_iff of_nat_numeral of_nat_power)
  also have "\<dots> \<le> x" using f by simp
  finally show ?thesis .
next
  case False
  let ?N = "\<lceil>1 / x\<rceil>"
  let ?m = "nat (?N - 1)"
  from False assms have "1 < 1 / x" by simp
  then have N: "2 \<le> ?N" by linarith
  have "1 / x \<le> of_int ?N" by simp
  also have "of_int ?N = (of_nat ?m + 1 :: rat)"
  proof -
    from N have "0 \<le> ?N - 1" by linarith
    then have "int ?m = ?N - 1" by simp
    then have "(of_nat ?m :: rat) = of_int (?N - 1)" by (metis of_int_of_nat_eq)
    then show ?thesis by simp
  qed
  also have "\<dots> \<le> 2 ^ bitlen_nat ?m"
  proof -
    have "Suc ?m \<le> 2 ^ bitlen_nat ?m" by (rule Suc_leI) (rule bitlen_nat_upper)
    then have "?m + 1 \<le> 2 ^ bitlen_nat ?m" by (simp only: Suc_eq_plus1)
    then have "(of_nat (?m + 1) :: rat) \<le> of_nat (2 ^ bitlen_nat ?m)" by (simp only: of_nat_le_iff)
    then show ?thesis by simp
  qed
  finally have le: "1 / x \<le> 2 ^ bitlen_nat ?m" .
  have "pow2 (ilog2 x) = 1 / 2 ^ bitlen_nat ?m"
    using False by (simp add: ilog2_def pow2_def)
  also have "\<dots> \<le> x"
  proof -
    from le assms have "1 \<le> x * 2 ^ bitlen_nat ?m" by (simp add: field_simps)
    then show ?thesis by (simp add: field_simps)
  qed
  finally show ?thesis .
qed

lemma round_half_even_error: "\<bar>of_int (round_half_even q) - q\<bar> \<le> 1 / 2"
proof -
  have "of_int \<lfloor>q\<rfloor> \<le> q" and "q < of_int \<lfloor>q\<rfloor> + 1" by linarith+
  then show ?thesis
    unfolding round_half_even_unfold by (auto simp: abs_le_iff)
qed

lemma binary64_error:
  assumes "0 \<le> x"
  shows "\<bar>binary64 x - x\<bar> \<le> x / 2 ^ 53"
proof (cases "x = 0")
  case True
  then show ?thesis by (simp add: binary64_def)
next
  case False
  with assms have x: "0 < x" by simp
  define u where "u = pow2 (ilog2 x - 52)"
  define m where "m = round_half_even (x / u)"
  have u: "0 < u" by (simp add: u_def pow2_pos)
  have b: "binary64 x = of_int m * u"
    using x by (simp add: binary64_unfold u_def m_def)
  have "\<bar>of_int m - x / u\<bar> \<le> 1 / 2" unfolding m_def by (rule round_half_even_error)
  then have "\<bar>of_int m - x / u\<bar> * u \<le> 1 / 2 * u" using u by (intro mult_right_mono) simp_all
  moreover have "\<bar>of_int m - x / u\<bar> * u = \<bar>of_int m * u - x\<bar>"
  proof -
    have "(of_int m - x / u) * u = of_int m * u - x" using u by (simp add: left_diff_distrib)
    moreover have "\<bar>of_int m - x / u\<bar> * u = \<bar>(of_int m - x / u) * u\<bar>"
      using u by (simp add: abs_mult)
    ultimately show ?thesis by simp
  qed
  ultimately have e: "\<bar>of_int m * u - x\<bar> \<le> u / 2" by simp
  have p52: "pow2 52 = 2 ^ 52" by (simp add: pow2_def)
  have "u = pow2 (ilog2 x) / 2 ^ 52" unfolding u_def pow2_diff by (simp only: p52)
  also have "\<dots> \<le> x / 2 ^ 52" using pow2_ilog2_le [OF x] by (simp add: divide_right_mono)
  finally have "u / 2 \<le> x / 2 ^ 53" by simp
  with e b show ?thesis by simp
qed

lemma binary64_one: "binary64 1 = 1"
  by (simp add: binary64_eval)

lemma binary64_half: "binary64 (1 / 2) = 1 / 2"
  by (simp add: binary64_eval)


lemma accurate_binary64: "accurate binary64"
  unfolding accurate_def using binary64_error by blast

lemma accurate_exact: "accurate exact"
  by (simp add: accurate_def exact_def)

lemma accurateD: "accurate rnd \<Longrightarrow> 0 \<le> x \<Longrightarrow> \<bar>rnd x - x\<bar> \<le> x / 2 ^ 53"
  unfolding accurate_def by blast

lemma accurate_nonneg:
  assumes "accurate rnd" and "0 \<le> x"
  shows "0 \<le> rnd x"
proof -
  have "x / 2 ^ 53 \<le> x" using assms(2) by (simp add: field_simps)
  with accurateD [OF assms] show ?thesis by linarith
qed

lemma sum_rounded_quotients:
  assumes "accurate rnd" and "0 < t"
  shows "\<bar>sum_list (map (\<lambda>q. rnd (of_nat (snd q) / t)) word_counts) -
           of_nat (sum_list (map snd word_counts)) / t\<bar>
         \<le> of_nat (sum_list (map snd word_counts)) / t / 2 ^ 53"
proof (induction word_counts)
  case Nil
  then show ?case by simp
next
  case (Cons q word_counts)
  have "0 \<le> of_nat (snd q) / t" using assms(2) by simp
  from accurateD [OF assms(1) this] Cons show ?case
    by (simp add: add_divide_distrib)
qed


lemma accumulated_error:
  assumes "accurate rnd"
  shows "\<forall>p \<in> set ps. 0 \<le> p \<Longrightarrow> sum_list ps \<le> 1 + 1 / 2 ^ 53 \<Longrightarrow> length ps \<le> 2 ^ 52 \<Longrightarrow>
    0 \<le> foldl (\<lambda>s p. rnd (s + p)) 0 ps \<and>
    \<bar>foldl (\<lambda>s p. rnd (s + p)) 0 ps - sum_list ps\<bar> \<le> 2 * of_nat (length ps) / 2 ^ 53"
proof (induction ps rule: rev_induct)
  case Nil
  then show ?case by simp
next
  case (snoc p ps)
  define a where "a = foldl (\<lambda>s p. rnd (s + p)) 0 ps"
  define S where "S = sum_list ps"
  define k where "k = (of_nat (length ps) :: rat)"
  from snoc.prems(1) have p: "0 \<le> p" and nn: "\<forall>q \<in> set ps. 0 \<le> q" by simp_all
  from snoc.prems(2) p have S: "S + p \<le> 1 + 1 / 2 ^ 53" and S': "sum_list ps \<le> 1 + 1 / 2 ^ 53"
    by (simp_all add: S_def)
  from snoc.prems(3) have len: "length ps \<le> 2 ^ 52" by simp
  from snoc.prems(3) have "Suc (length ps) \<le> 2 ^ 52" by simp
  then have "(of_nat (Suc (length ps)) :: rat) \<le> of_nat (2 ^ 52)" by (simp only: of_nat_le_iff)
  then have k: "k + 1 \<le> 2 ^ 52" by (simp add: k_def)
  from snoc.IH [OF nn S' len] have a: "0 \<le> a" and e: "\<bar>a - S\<bar> \<le> 2 * k / 2 ^ 53"
    by (simp_all add: a_def S_def k_def)
  have x: "0 \<le> a + p" using a p by simp
  have k2: "2 * k / 2 ^ 53 \<le> 1 - 1 / 2 ^ 52" using k by (simp add: field_simps)
  have c: "(1::rat) / 2 ^ 53 \<le> 1 / 2 ^ 52" by simp
  from e have e1: "a - S \<le> 2 * k / 2 ^ 53" by linarith
  have "a + p \<le> 2" using e1 S k2 c by linarith
  then have "(a + p) / 2 ^ 53 \<le> 2 / 2 ^ 53" by (simp add: divide_right_mono)
  with accurateD [OF assms x] have r: "\<bar>rnd (a + p) - (a + p)\<bar> \<le> 2 / 2 ^ 53" by linarith
  have split: "2 * (k + 1) / 2 ^ 53 = 2 * k / 2 ^ 53 + 2 / 2 ^ 53"
    by (simp add: add_divide_distrib distrib_left)
  have "\<bar>rnd (a + p) - (S + p)\<bar> \<le> 2 * (k + 1) / 2 ^ 53"
    unfolding split using r e by linarith
  moreover have "0 \<le> rnd (a + p)" using assms x by (rule accurate_nonneg)
  ultimately show ?case by (simp add: a_def S_def k_def add.commute)
qed


section \<open>The table built by training\<close>

lemma dd_modify_values_all:
  "\<forall>p \<in> set ps. Q (snd p) \<Longrightarrow> Q (f dflt) \<Longrightarrow> \<forall>v. Q v \<longrightarrow> Q (f v) \<Longrightarrow>
   \<forall>p \<in> set (dd_modify dflt k f ps). Q (snd p)"
  by (induction ps) auto

lemma dd_modify_values:
  assumes "\<And>p. p \<in> set ps \<Longrightarrow> Q (snd p)" and "Q (f dflt)" and "\<And>v. Q v \<Longrightarrow> Q (f v)"
    and "p \<in> set (dd_modify dflt k f ps)"
  shows "Q (snd p)"
  using dd_modify_values_all [of ps Q f dflt k] assms by blast

lemma dd_modify_nonempty: "dd_modify dflt k f ps \<noteq> []"
  by (cases ps) simp_all

lemma dd_modify_keys: "fst ` set (dd_modify dflt k f ps) = insert k (fst ` set ps)"
  by (induction ps) auto

lemma fold_invariant:
  assumes "\<And>x s. I s \<Longrightarrow> I (g x s)" and "I s"
  shows "I (fold g xs s)"
  using assms(2) by (induction xs arbitrary: s) (simp_all add: assms(1))

lemma counted_bump:
  assumes "word_counts = [] \<or> counted word_counts"
  shows "counted (dd_modify 0 word (\<lambda>c. c + 1) word_counts)"
proof -
  have "0 < snd p" if "p \<in> set (dd_modify 0 word (\<lambda>c. c + 1) word_counts)" for p
  proof (rule dd_modify_values [where Q = "\<lambda>c. 0 < c", OF _ _ _ that])
    show "0 < snd q" if "q \<in> set word_counts" for q
      using assms that by (auto simp: counted_def)
  qed simp_all
  then show ?thesis by (simp add: counted_def dd_modify_nonempty)
qed

lemma all_counted_increment:
  assumes "all_counted d"
  shows "all_counted (increment ctx word d)"
proof -
  have "counted (snd e)" if "e \<in> set (increment ctx word d)" for e
  proof (rule dd_modify_values [where Q = counted and ps = d and k = ctx and dflt = "[]"
        and f = "dd_modify 0 word (\<lambda>c. c + 1)"])
    show "counted (snd q)" if "q \<in> set d" for q
      using assms that by (simp add: all_counted_def)
    show "counted (dd_modify 0 word (\<lambda>c. c + 1) [])"
      by (rule counted_bump) simp
    show "counted (dd_modify 0 word (\<lambda>c. c + 1) v)" if "counted v" for v
      by (rule counted_bump) (simp add: that)
    show "e \<in> set (dd_modify [] ctx (dd_modify 0 word (\<lambda>c. c + 1)) d)"
      using that by (simp add: increment_def)
  qed
  then show ?thesis by (simp add: all_counted_def)
qed

lemma all_counted_count_line: "all_counted d \<Longrightarrow> all_counted (count_line st n line d)"
  unfolding count_line_def Let_def
  by (rule fold_invariant [where I = all_counted]) (simp_all add: all_counted_increment)

lemma all_counted_count_corpus: "all_counted (count_corpus st n corpus)"
  unfolding count_corpus_def
proof (rule fold_invariant [where I = all_counted])
  show "all_counted []" by (simp add: all_counted_def)
qed (rule all_counted_count_line)

lemma counted_total_pos: "counted word_counts \<Longrightarrow> 0 < sum_list (map snd word_counts)"
  by (cases word_counts) (auto simp: counted_def)

lemma count_corpus_total_pos:
  "(ctx, word_counts) \<in> set (count_corpus st n corpus) \<Longrightarrow> 0 < sum_list (map snd word_counts)"
proof -
  assume "(ctx, word_counts) \<in> set (count_corpus st n corpus)"
  with all_counted_count_corpus [of st n corpus] have "counted (snd (ctx, word_counts))"
    unfolding all_counted_def by blast
  then show ?thesis by (simp add: counted_total_pos)
qed

lemma sum_list_quotients:
  "sum_list (map (\<lambda>p. (of_nat (snd p) :: rat) / t) word_counts) =
     of_nat (sum_list (map snd word_counts)) / t"
  by (induction word_counts) (simp_all add: add_divide_distrib)

lemma normalize_counts_exact_sum:
  assumes "0 < sum_list (map snd word_counts)"
  shows "sum_list (map snd (normalize_counts exact word_counts)) = 1"
proof -
  have "map snd (normalize_counts exact word_counts) =
        map (\<lambda>p. (of_nat (snd p) :: rat) / of_nat (sum_list (map snd word_counts))) word_counts"
    by (simp add: normalize_counts_def exact_def case_prod_unfold)
  moreover have "(of_nat (sum_list (map snd word_counts)) :: rat) \<noteq> 0"
    using assms by (metis of_nat_0_less_iff less_irrefl)
  ultimately show ?thesis by (metis sum_list_quotients divide_self)
qed

lemma init_ngram_dict_entry:
  assumes "(ctx, word_probs) \<in> set (init_ngram_dict rnd st n corpus)"
  shows "\<exists>word_counts. (ctx, word_counts) \<in> set (count_corpus st n corpus) \<and>
           word_probs = normalize_counts rnd word_counts"
  using assms by (auto simp: init_ngram_dict_def to_probabilities_def)


lemma init_ngram_dict_exact_sum:
  assumes "(ctx, word_probs) \<in> set (init_ngram_dict exact st n corpus)"
  shows "sum_list (map snd word_probs) = 1"
proof -
  from init_ngram_dict_entry [OF assms] obtain word_counts
    where a: "(ctx, word_counts) \<in> set (count_corpus st n corpus)"
      and b: "word_probs = normalize_counts exact word_counts" by blast
  from count_corpus_total_pos [OF a] b show ?thesis
    by (simp add: normalize_counts_exact_sum)
qed

lemma corpus_cat:
  "corpus_iter example_settings [''The cat sat.'', ''The cat ran.''] =
     [[''the'', ''cat'', ''sat'', ''.'', ''</s>''], [''the'', ''cat'', ''ran'', ''.'', ''</s>'']]"
  by (simp add: corpus_iter_def lower_def char_lower_def ascii_uppercase_def ascii_lowercase_def
      tokenize_def str_split_def whitespace_def tokenize_word_def strip_after.simps punctuation_def
      example_settings_def)

lemma table_cat:
  "init_ngram_dict exact example_settings 2
     [[''the'', ''cat'', ''sat'', ''.'', ''</s>''], [''the'', ''cat'', ''ran'', ''.'', ''</s>'']] =
   [([''<s>''], [(''the'', 1)]), ([''the''], [(''cat'', 1)]),
    ([''cat''], [(''sat'', 1 / 2), (''ran'', 1 / 2)]),
    ([''sat''], [(''.'', 1)]), ([''.''], [(''</s>'', 1)]), ([''ran''], [(''.'', 1)])]"
  by (simp add: init_ngram_dict_def count_corpus_def count_line_def increment_def slice_def
      to_probabilities_def normalize_counts_def exact_def example_settings_def)


lemma normalize_counts_sum_error:
  assumes "accurate rnd" and "0 < sum_list (map snd word_counts)"
  shows "\<bar>sum_list (map snd (normalize_counts rnd word_counts)) - 1\<bar> \<le> 1 / 2 ^ 53"
proof -
  let ?t = "of_nat (sum_list (map snd word_counts)) :: rat"
  have t: "0 < ?t" using assms(2) by (metis of_nat_0_less_iff)
  have "map snd (normalize_counts rnd word_counts) =
        map (\<lambda>q. rnd (of_nat (snd q) / ?t)) word_counts"
    by (simp add: normalize_counts_def case_prod_unfold)
  moreover have "?t / ?t = 1" using t by (metis divide_self less_irrefl)
  ultimately show ?thesis
    using sum_rounded_quotients [OF assms(1) t, of word_counts] by (simp only:)
qed

lemma normalize_counts_nonneg:
  assumes "accurate rnd" and "q \<in> set (normalize_counts rnd word_counts)"
  shows "0 \<le> snd q"
proof -
  from assms(2) obtain w c where q: "q = (w, rnd (of_nat c / of_nat (sum_list (map snd word_counts))))"
    by (auto simp: normalize_counts_def)
  have "(0::rat) \<le> of_nat c / of_nat (sum_list (map snd word_counts))" by simp
  from accurate_nonneg [OF assms(1) this] q show ?thesis by simp
qed

lemma init_ngram_dict_sum_error:
  assumes "accurate rnd" and "(ctx, word_probs) \<in> set (init_ngram_dict rnd st n corpus)"
  shows "\<bar>sum_list (map snd word_probs) - 1\<bar> \<le> 1 / 2 ^ 53"
proof -
  from init_ngram_dict_entry [OF assms(2)] obtain word_counts
    where a: "(ctx, word_counts) \<in> set (count_corpus st n corpus)"
      and b: "word_probs = normalize_counts rnd word_counts" by blast
  from normalize_counts_sum_error [OF assms(1) count_corpus_total_pos [OF a]] b
  show ?thesis by simp
qed

lemma init_ngram_dict_nonneg:
  assumes "accurate rnd" and "(ctx, word_probs) \<in> set (init_ngram_dict rnd st n corpus)"
    and "q \<in> set word_probs"
  shows "0 \<le> snd q"
proof -
  from init_ngram_dict_entry [OF assms(2)] obtain word_counts
    where "word_probs = normalize_counts rnd word_counts" by blast
  with assms(1) assms(3) show ?thesis by (simp add: normalize_counts_nonneg)
qed

lemma init_ngram_dict_accumulated:
  assumes "accurate rnd" and "(ctx, word_probs) \<in> set (init_ngram_dict rnd st n corpus)"
    and "length word_probs \<le> 2 ^ 52"
  shows "\<bar>foldl (\<lambda>s p. rnd (s + p)) 0 (map snd word_probs) - 1\<bar>
           \<le> (2 * of_nat (length word_probs) + 1) / 2 ^ 53"
proof -
  let ?ps = "map snd word_probs"
  have nn: "\<forall>p \<in> set ?ps. 0 \<le> p"
    using init_ngram_dict_nonneg [OF assms(1) assms(2)] by auto
  have s: "\<bar>sum_list ?ps - 1\<bar> \<le> 1 / 2 ^ 53"
    using assms(1) assms(2) by (rule init_ngram_dict_sum_error)
  then have s': "sum_list ?ps \<le> 1 + 1 / 2 ^ 53" by linarith
  have len: "length ?ps \<le> 2 ^ 52" using assms(3) by simp
  from accumulated_error [OF assms(1) nn s' len]
  have e: "\<bar>foldl (\<lambda>s p. rnd (s + p)) 0 ?ps - sum_list ?ps\<bar> \<le> 2 * of_nat (length word_probs) / 2 ^ 53"
    by simp
  have split: "(2 * of_nat (length word_probs) + 1) / 2 ^ 53 =
      2 * (of_nat (length word_probs) :: rat) / 2 ^ 53 + 1 / 2 ^ 53"
    by (simp add: add_divide_distrib)
  show ?thesis unfolding split using e s by linarith
qed


lemma table_cat_binary64:
  "init_ngram_dict binary64 example_settings 2
     [[''the'', ''cat'', ''sat'', ''.'', ''</s>''], [''the'', ''cat'', ''ran'', ''.'', ''</s>'']] =
   [([''<s>''], [(''the'', 1)]), ([''the''], [(''cat'', 1)]),
    ([''cat''], [(''sat'', 1 / 2), (''ran'', 1 / 2)]),
    ([''sat''], [(''.'', 1)]), ([''.''], [(''</s>'', 1)]), ([''ran''], [(''.'', 1)])]"
  by (simp add: init_ngram_dict_def count_corpus_def count_line_def increment_def slice_def
      to_probabilities_def normalize_counts_def example_settings_def binary64_one binary64_half)


text \<open>
  C1. For every corpus and every order \<open>n \<ge> 1\<close>, every context of the table built by
  training has a distribution whose probabilities sum to 1: exactly in exact rational
  arithmetic, and within a small epsilon in the double arithmetic of the code. There the
  sum of the stored doubles differs from 1 by at most \<open>2\<^sup>-\<^sup>5\<^sup>3\<close>, and the sum accumulated in
  doubles from left to right (as \<^verbatim>\<open>generate_token\<close> accumulates it) by at most
  \<open>(2 k + 1) / 2\<^sup>5\<^sup>3\<close> for a distribution of \<open>k \<le> 2\<^sup>5\<^sup>2\<close> entries.
\<close>

theorem probabilities_sum_to_one:
  assumes "1 \<le> n"
  shows "((ctx, word_probs) \<in> set (init_ngram_dict exact st n corpus) \<longrightarrow>
            sum_list (map snd word_probs) = 1) \<and>
         ((ctx, word_probs) \<in> set (init_ngram_dict binary64 st n corpus) \<longrightarrow>
            \<bar>sum_list (map snd word_probs) - 1\<bar> \<le> 1 / 2 ^ 53 \<and>
            (length word_probs \<le> 2 ^ 52 \<longrightarrow>
               \<bar>foldl (\<lambda>s p. binary64 (s + p)) 0 (map snd word_probs) - 1\<bar>
                 \<le> (2 * of_nat (length word_probs) + 1) / 2 ^ 53))"
  using init_ngram_dict_exact_sum [of ctx word_probs st n corpus]
    init_ngram_dict_sum_error [OF accurate_binary64, of ctx word_probs st n corpus]
    init_ngram_dict_accumulated [OF accurate_binary64, of ctx word_probs st n corpus]
  by blast


theorem probabilities_sum_to_one_witness:
  "(1::nat) \<le> 2 \<and>
   ([''cat''], [(''sat'', 1 / 2), (''ran'', 1 / 2)]) \<in>
     set (init_ngram_dict exact example_settings 2
            (corpus_iter example_settings [''The cat sat.'', ''The cat ran.''])) \<and>
   ([''cat''], [(''sat'', 1 / 2), (''ran'', 1 / 2)]) \<in>
     set (init_ngram_dict binary64 example_settings 2
            (corpus_iter example_settings [''The cat sat.'', ''The cat ran.''])) \<and>
   length [(''sat'', 1 / 2 :: rat), (''ran'', 1 / 2)] \<le> 2 ^ 52 \<and>
   sum_list (map snd [(''sat'', 1 / 2 :: rat), (''ran'', 1 / 2)]) = 1 \<and>
   \<bar>sum_list (map snd [(''sat'', 1 / 2 :: rat), (''ran'', 1 / 2)]) - 1\<bar> \<le> 1 / 2 ^ 53 \<and>
   \<bar>foldl (\<lambda>s p. binary64 (s + p)) 0 (map snd [(''sat'', 1 / 2 :: rat), (''ran'', 1 / 2)]) - 1\<bar>
     \<le> (2 * of_nat (length [(''sat'', 1 / 2 :: rat), (''ran'', 1 / 2)]) + 1) / 2 ^ 53"
proof -
  have a: "(1::nat) \<le> 2" by simp
  have b: "([''cat''], [(''sat'', 1 / 2), (''ran'', 1 / 2)]) \<in>
     set (init_ngram_dict exact example_settings 2
            (corpus_iter example_settings [''The cat sat.'', ''The cat ran.'']))"
    by (simp add: corpus_cat table_cat)
  have c: "([''cat''], [(''sat'', 1 / 2), (''ran'', 1 / 2)]) \<in>
     set (init_ngram_dict binary64 example_settings 2
            (corpus_iter example_settings [''The cat sat.'', ''The cat ran.'']))"
    by (simp add: corpus_cat table_cat_binary64)
  have d: "length [(''sat'', 1 / 2 :: rat), (''ran'', 1 / 2)] \<le> 2 ^ 52" by simp
  from a b c d
    probabilities_sum_to_one [OF a, of "[''cat'']" "[(''sat'', 1 / 2), (''ran'', 1 / 2)]"
      example_settings "corpus_iter example_settings [''The cat sat.'', ''The cat ran.'']"]
  show ?thesis by blast
qed


section \<open>Sampling\<close>

lemma pick_token: "pick rnd r s word_probs = Inr w \<Longrightarrow> w \<in> fst ` set word_probs"
  by (induction rnd r s word_probs rule: pick.induct) (auto split: if_splits)

lemma pick_fails_exact:
  "pick exact r s word_probs = Inl e \<Longrightarrow> word_probs \<noteq> [] \<Longrightarrow> s + sum_list (map snd word_probs) < r"
proof (induction word_probs arbitrary: s)
  case Nil
  then show ?case by simp
next
  case (Cons a word_probs)
  obtain w p where a: "a = (w, p)" by (cases a)
  show ?case
  proof (cases "word_probs = []")
    case True
    with Cons.prems a show ?thesis by (simp add: exact_def split: if_splits)
  next
    case False
    with Cons.prems a Cons.IH [of "s + p"] show ?thesis
      by (simp add: exact_def add.assoc split: if_splits)
  qed
qed

lemma counted_normalize_nonempty:
  "counted word_counts \<Longrightarrow> normalize_counts rnd word_counts \<noteq> []"
  by (simp add: counted_def normalize_counts_def)

lemma init_ngram_dict_nonempty:
  assumes "(ctx, word_probs) \<in> set (init_ngram_dict rnd st n corpus)"
  shows "word_probs \<noteq> []"
proof -
  from init_ngram_dict_entry [OF assms] obtain word_counts
    where a: "(ctx, word_counts) \<in> set (count_corpus st n corpus)"
      and b: "word_probs = normalize_counts rnd word_counts" by blast
  from a all_counted_count_corpus [of st n corpus] have "counted (snd (ctx, word_counts))"
    unfolding all_counted_def by blast
  with b show ?thesis by (simp add: counted_normalize_nonempty)
qed


lemma sampling_succeeds_exact:
  assumes "1 \<le> n" and "ctx \<in> fst ` set (init_ngram_dict exact st n corpus)"
    and "0 \<le> r" and "r < 1"
  shows "\<exists>w word_probs. map_of (init_ngram_dict exact st n corpus) ctx = Some word_probs \<and>
           w \<in> fst ` set word_probs \<and>
           generate_token exact (init_ngram_dict exact st n corpus) ctx r =
             (init_ngram_dict exact st n corpus, Inr w)"
proof -
  let ?T = "init_ngram_dict exact st n corpus"
  from assms(2) obtain word_probs where m: "map_of ?T ctx = Some word_probs"
    by (metis map_of_eq_None_iff not_None_eq)
  then have mem: "(ctx, word_probs) \<in> set ?T" by (rule map_of_SomeD)
  have ne: "word_probs \<noteq> []" using mem by (rule init_ngram_dict_nonempty)
  have sum: "sum_list (map snd word_probs) = 1" using mem by (rule init_ngram_dict_exact_sum)
  have "\<exists>w. pick exact r 0 word_probs = Inr w"
  proof (cases "pick exact r 0 word_probs")
    case (Inl e)
    from pick_fails_exact [OF Inl ne] sum assms(4) show ?thesis by simp
  next
    case (Inr w)
    then show ?thesis by blast
  qed
  then obtain w where w: "pick exact r 0 word_probs = Inr w" ..
  from w have k: "w \<in> fst ` set word_probs" by (rule pick_token)
  have g: "generate_token exact ?T ctx r = (?T, Inr w)"
    using m w by (simp add: generate_token_present)
  from m k g show ?thesis by blast
qed

lemma pick_fails_accumulated:
  "pick rnd r s word_probs = Inl e \<Longrightarrow> word_probs \<noteq> [] \<Longrightarrow>
     foldl (\<lambda>s p. rnd (s + p)) s (map snd word_probs) < r"
proof (induction word_probs arbitrary: s)
  case Nil
  then show ?case by simp
next
  case (Cons a word_probs)
  obtain w p where a: "a = (w, p)" by (cases a)
  show ?case
  proof (cases "word_probs = []")
    case True
    with Cons.prems a show ?thesis by (simp split: if_splits)
  next
    case False
    with Cons.prems a Cons.IH [of "rnd (s + p)"] show ?thesis
      by (simp split: if_splits)
  qed
qed


lemma sampling_succeeds_accumulated:
  assumes "accurate rnd" and "map_of (init_ngram_dict rnd st n corpus) ctx = Some word_probs"
    and "length word_probs \<le> 2 ^ 52"
    and "r \<le> 1 - (2 * of_nat (length word_probs) + 1) / 2 ^ 53"
  shows "\<exists>w. w \<in> fst ` set word_probs \<and>
           generate_token rnd (init_ngram_dict rnd st n corpus) ctx r =
             (init_ngram_dict rnd st n corpus, Inr w)"
proof -
  let ?T = "init_ngram_dict rnd st n corpus"
  from assms(2) have mem: "(ctx, word_probs) \<in> set ?T" by (rule map_of_SomeD)
  have ne: "word_probs \<noteq> []" using mem by (rule init_ngram_dict_nonempty)
  from init_ngram_dict_accumulated [OF assms(1) mem assms(3)] assms(4)
  have acc: "r \<le> foldl (\<lambda>s p. rnd (s + p)) 0 (map snd word_probs)" by linarith
  have "\<exists>w. pick rnd r 0 word_probs = Inr w"
  proof (cases "pick rnd r 0 word_probs")
    case (Inl e)
    from pick_fails_accumulated [OF Inl ne] acc show ?thesis by simp
  next
    case (Inr w)
    then show ?thesis by blast
  qed
  then obtain w where w: "pick rnd r 0 word_probs = Inr w" ..
  from w have k: "w \<in> fst ` set word_probs" by (rule pick_token)
  have g: "generate_token rnd ?T ctx r = (?T, Inr w)"
    using assms(2) w by (simp add: generate_token_present)
  from k g show ?thesis by blast
qed

lemma binary64_seventh: "binary64 (1 / 7) = 2573485501354569 / 18014398509481984"
  by (simp add: binary64_eval)

lemma binary64_sum2: "binary64 (2573485501354569 / 9007199254740992) = 2573485501354569 / 9007199254740992"
  by (simp add: binary64_eval)

lemma binary64_sum3: "binary64 (7720456504063707 / 18014398509481984) = 7720456504063707 / 18014398509481984"
  by (simp add: binary64_eval)

lemma binary64_sum4: "binary64 (2573485501354569 / 4503599627370496) = 2573485501354569 / 4503599627370496"
  by (simp add: binary64_eval)

lemma binary64_sum5: "binary64 (12867427506772845 / 18014398509481984) = 3216856876693211 / 4503599627370496"
  by (simp add: binary64_eval)

lemma binary64_sum6: "binary64 (15440913008127413 / 18014398509481984) = 3860228252031853 / 4503599627370496"
  by (simp add: binary64_eval)

lemma binary64_sum7: "binary64 (18014398509481981 / 18014398509481984) = 4503599627370495 / 4503599627370496"
  by (simp add: binary64_eval)

lemma binary64_sum1: "binary64 (2573485501354569 / 18014398509481984) = 2573485501354569 / 18014398509481984"
  by (simp add: binary64_eval)

lemma corpus_seven:
  "corpus_iter example_settings [''a b c d e.''] = [[''a'', ''b'', ''c'', ''d'', ''e'', ''.'', ''</s>'']]"
  by (simp add: corpus_iter_def lower_def char_lower_def ascii_uppercase_def ascii_lowercase_def
      tokenize_def str_split_def whitespace_def tokenize_word_def strip_after.simps punctuation_def
      example_settings_def)

lemma table_seven:
  "init_ngram_dict binary64 example_settings 1 [[''a'', ''b'', ''c'', ''d'', ''e'', ''.'', ''</s>'']] =
     [([], [(''a'', 2573485501354569 / 18014398509481984),
            (''b'', 2573485501354569 / 18014398509481984),
            (''c'', 2573485501354569 / 18014398509481984),
            (''d'', 2573485501354569 / 18014398509481984),
            (''e'', 2573485501354569 / 18014398509481984),
            (''.'', 2573485501354569 / 18014398509481984),
            (''</s>'', 2573485501354569 / 18014398509481984)])]"
  by (simp add: init_ngram_dict_def count_corpus_def count_line_def increment_def slice_def
      to_probabilities_def normalize_counts_def example_settings_def binary64_seventh)

lemma pick_seven:
  "pick binary64 (9007199254740991 / 9007199254740992) 0
     [(''a'', 2573485501354569 / 18014398509481984),
      (''b'', 2573485501354569 / 18014398509481984),
      (''c'', 2573485501354569 / 18014398509481984),
      (''d'', 2573485501354569 / 18014398509481984),
      (''e'', 2573485501354569 / 18014398509481984),
      (''.'', 2573485501354569 / 18014398509481984),
      (''</s>'', 2573485501354569 / 18014398509481984)] = Inl No_token_generated"
  by (simp add: binary64_sum1 binary64_sum2 binary64_sum3 binary64_sum4 binary64_sum5
      binary64_sum6 binary64_sum7)


text \<open>
  C4, as claimed: for a context of a trained table every draw in \<open>[0, 1)\<close> gives a token,
  the last entry being the fallback at the rounding boundary. \<^verbatim>\<open>generate_token\<close> has no
  such fallback: it raises when the accumulated sum stays below the draw. The model of
  order 1 trained on the line \<^verbatim>\<open>a b c d e.\<close> has one context with seven words of
  probability \<^verbatim>\<open>1/7\<close>; added in doubles they give \<open>1 - 2\<^sup>-\<^sup>5\<^sup>2\<close>
  (\<^verbatim>\<open>0.9999999999999998\<close>), and the draw \<open>1 - 2\<^sup>-\<^sup>5\<^sup>3\<close>, the largest value of
  \<^verbatim>\<open>random.random()\<close>, reaches the \<^verbatim>\<open>raise\<close>.
\<close>

theorem sampling_fails_in_doubles:
  "[] \<in> fst ` set (init_ngram_dict binary64 example_settings 1
                     (corpus_iter example_settings [''a b c d e.''])) \<and>
   snd (generate_token binary64
          (init_ngram_dict binary64 example_settings 1 (corpus_iter example_settings [''a b c d e.'']))
          [] (9007199254740991 / 9007199254740992)) = Inl No_token_generated"
  unfolding corpus_seven table_seven
  by (simp add: generate_token_def dd_getitem_def pick_seven del: pick.simps)

text \<open>
  C4, amended. For every context of a table built by training, \<^verbatim>\<open>generate_token\<close> returns
  a word of that context's distribution and leaves the table as it is: in exact
  arithmetic for every draw in \<open>[0, 1)\<close>, and in double arithmetic for every draw up to
  \<open>1 - (2 k + 1) / 2\<^sup>5\<^sup>3\<close>, where \<open>k \<le> 2\<^sup>5\<^sup>2\<close> is the number of entries of the distribution.
\<close>

theorem sampling_succeeds:
  assumes "1 \<le> n"
  shows "(ctx \<in> fst ` set (init_ngram_dict exact st n corpus) \<and> 0 \<le> r \<and> r < 1 \<longrightarrow>
            (\<exists>w word_probs. map_of (init_ngram_dict exact st n corpus) ctx = Some word_probs \<and>
               w \<in> fst ` set word_probs \<and>
               generate_token exact (init_ngram_dict exact st n corpus) ctx r =
                 (init_ngram_dict exact st n corpus, Inr w))) \<and>
         (map_of (init_ngram_dict binary64 st n corpus) ctx = Some word_floats \<and>
          length word_floats \<le> 2 ^ 52 \<and>
          r \<le> 1 - (2 * of_nat (length word_floats) + 1) / 2 ^ 53 \<longrightarrow>
            (\<exists>w. w \<in> fst ` set word_floats \<and>
               generate_token binary64 (init_ngram_dict binary64 st n corpus) ctx r =
                 (init_ngram_dict binary64 st n corpus, Inr w)))"
  using sampling_succeeds_exact [OF assms, of ctx st corpus r]
    sampling_succeeds_accumulated [OF accurate_binary64, of st n corpus ctx word_floats r]
  by blast


theorem sampling_succeeds_witness:
  "(1::nat) \<le> 2 \<and>
   [''cat''] \<in> fst ` set (init_ngram_dict exact example_settings 2
     [[''the'', ''cat'', ''sat'', ''.'', ''</s>''], [''the'', ''cat'', ''ran'', ''.'', ''</s>'']]) \<and>
   (0::rat) \<le> 3 / 4 \<and> (3 / 4 :: rat) < 1 \<and>
   map_of (init_ngram_dict binary64 example_settings 2
     [[''the'', ''cat'', ''sat'', ''.'', ''</s>''], [''the'', ''cat'', ''ran'', ''.'', ''</s>'']])
     [''cat''] = Some [(''sat'', 1 / 2), (''ran'', 1 / 2)] \<and>
   length [(''sat'', 1 / 2 :: rat), (''ran'', 1 / 2)] \<le> 2 ^ 52 \<and>
   (3 / 4 :: rat) \<le> 1 - (2 * of_nat (length [(''sat'', 1 / 2 :: rat), (''ran'', 1 / 2)]) + 1) / 2 ^ 53 \<and>
   (\<exists>w word_probs. map_of (init_ngram_dict exact example_settings 2
        [[''the'', ''cat'', ''sat'', ''.'', ''</s>''], [''the'', ''cat'', ''ran'', ''.'', ''</s>'']])
        [''cat''] = Some word_probs \<and>
      w \<in> fst ` set word_probs \<and>
      generate_token exact (init_ngram_dict exact example_settings 2
        [[''the'', ''cat'', ''sat'', ''.'', ''</s>''], [''the'', ''cat'', ''ran'', ''.'', ''</s>'']])
        [''cat''] (3 / 4) =
      (init_ngram_dict exact example_settings 2
        [[''the'', ''cat'', ''sat'', ''.'', ''</s>''], [''the'', ''cat'', ''ran'', ''.'', ''</s>'']],
       Inr w)) \<and>
   (\<exists>w. w \<in> fst ` set [(''sat'', 1 / 2 :: rat), (''ran'', 1 / 2)] \<and>
      generate_token binary64 (init_ngram_dict binary64 example_settings 2
        [[''the'', ''cat'', ''sat'', ''.'', ''</s>''], [''the'', ''cat'', ''ran'', ''.'', ''</s>'']])
        [''cat''] (3 / 4) =
      (init_ngram_dict binary64 example_settings 2
        [[''the'', ''cat'', ''sat'', ''.'', ''</s>''], [''the'', ''cat'', ''ran'', ''.'', ''</s>'']],
       Inr w))"
proof -
  let ?C = "[[''the'', ''cat'', ''sat'', ''.'', ''</s>''], [''the'', ''cat'', ''ran'', ''.'', ''</s>'']]"
  have a: "(1::nat) \<le> 2" by simp
  have b: "[''cat''] \<in> fst ` set (init_ngram_dict exact example_settings 2 ?C)"
    by (simp add: table_cat)
  have c: "(0::rat) \<le> 3 / 4" "(3 / 4 :: rat) < 1" by simp_all
  have d: "map_of (init_ngram_dict binary64 example_settings 2 ?C) [''cat''] =
      Some [(''sat'', 1 / 2), (''ran'', 1 / 2)]"
    by (simp add: table_cat_binary64)
  have e: "length [(''sat'', 1 / 2 :: rat), (''ran'', 1 / 2)] \<le> 2 ^ 52" by simp
  have f: "(3 / 4 :: rat) \<le>
      1 - (2 * of_nat (length [(''sat'', 1 / 2 :: rat), (''ran'', 1 / 2)]) + 1) / 2 ^ 53"
    by simp
  from a b c d e f
    sampling_succeeds [OF a, of "[''cat'']" example_settings ?C "3 / 4"
      "[(''sat'', 1 / 2), (''ran'', 1 / 2)]"]
  show ?thesis by blast
qed

section \<open>The symbols a call samples\<close>

lemma words_of_Nil [simp]: "words_of [] = {}"
  by (simp add: words_of_def)

lemma words_of_Cons [simp]: "words_of (e # d) = fst ` set (snd e) \<union> words_of d"
  by (simp add: words_of_def image_Un)

lemma words_of_append [simp]: "words_of (d @ d') = words_of d \<union> words_of d'"
  by (simp add: words_of_def image_Un)

lemma words_of_increment: "words_of (increment ctx word d) = insert word (words_of d)"
  by (induction d) (auto simp: increment_def dd_modify_keys)

lemma words_of_fold_increment:
  "words_of (fold (\<lambda>i d. increment (c i) (w i) d) is d) = w ` set is \<union> words_of d"
  by (induction "is" arbitrary: d) (auto simp: words_of_increment)

lemma words_of_count_line: "words_of (count_line st n line d) \<subseteq> set line \<union> words_of d"
proof -
  let ?pad = "replicate (n - 1) (SENTENCE_START_TOKEN st)"
  have "(?pad @ line) ! i \<in> set line" if "i \<in> set [n - 1 ..< length (?pad @ line)]" for i
  proof -
    from that have "n - 1 \<le> i" and "i - (n - 1) < length line" by auto
    then show ?thesis by (simp add: nth_append)
  qed
  then show ?thesis
    unfolding count_line_def Let_def words_of_fold_increment by blast
qed

lemma words_of_count_corpus_aux:
  "words_of (fold (count_line st n) corpus d) \<subseteq> set (concat corpus) \<union> words_of d"
proof (induction corpus arbitrary: d)
  case Nil
  then show ?case by simp
next
  case (Cons line corpus)
  from Cons.IH [of "count_line st n line d"] words_of_count_line [of st n line d]
  show ?case by auto
qed

lemma map_fst_normalize_counts: "map fst (normalize_counts rnd word_counts) = map fst word_counts"
  by (simp add: normalize_counts_def case_prod_unfold)

lemma words_of_to_probabilities: "words_of (to_probabilities rnd d) = words_of d"
proof (induction d)
  case Nil
  then show ?case by (simp add: to_probabilities_def)
next
  case (Cons e d)
  have "fst ` set (normalize_counts rnd (snd e)) = fst ` set (snd e)"
    using map_fst_normalize_counts [of rnd "snd e"] by (metis set_map)
  with Cons show ?case by (simp add: to_probabilities_def case_prod_unfold)
qed

lemma words_of_init_ngram_dict:
  "words_of (init_ngram_dict rnd st n corpus) \<subseteq> set (concat corpus)"
  using words_of_count_corpus_aux [of st n corpus "[]"]
  by (simp add: init_ngram_dict_def words_of_to_probabilities count_corpus_def)

lemma map_of_words_of: "map_of d ctx = Some word_probs \<Longrightarrow> fst ` set word_probs \<subseteq> words_of d"
  by (induction d) (auto split: if_splits)

lemma generate_token_word:
  assumes "generate_token rnd d ctx r = (d', Inr w)"
  shows "d' = d \<and> w \<in> words_of d"
proof (cases "map_of d ctx")
  case None
  then have "ctx \<notin> fst ` set d" by (simp add: map_of_eq_None_iff)
  with assms show ?thesis by (simp add: generate_token_absent)
next
  case (Some word_probs)
  with assms have "d' = d" and "pick rnd r 0 word_probs = Inr w"
    by (simp_all add: generate_token_present)
  with map_of_words_of [OF Some] pick_token [of rnd r 0 word_probs w] show ?thesis by blast
qed

lemma sampled_tokens_words: "set (sampled_tokens rnd st d ctx draws) \<subseteq> words_of d"
proof (induction draws arbitrary: ctx)
  case Nil
  then show ?case by simp
next
  case (Cons r draws)
  obtain d' res where g: "generate_token rnd d ctx r = (d', res)"
    by (cases "generate_token rnd d ctx r")
  show ?case
  proof (cases res)
    case (Inl e)
    with g show ?thesis by simp
  next
    case (Inr w)
    with g generate_token_word [of rnd d ctx r d' w] have "d' = d" and "w \<in> words_of d"
      by simp_all
    with g Inr Cons.IH [of "tl (ctx @ [w])"] show ?thesis by auto
  qed
qed


text \<open>
  C10. If the start marker is not a token of any corpus line, then in the table built by
  training (for any order \<open>n \<ge> 1\<close> and any rounding) no distribution has an entry for the
  start marker, and no symbol that a call of the model samples is the start marker,
  whatever the draws. (The returned sentence is built from these sampled symbols only,
  lemma \<open>call_loop_sentence\<close>.)
\<close>

theorem start_marker_never_sampled:
  assumes "1 \<le> n" and "SENTENCE_START_TOKEN st \<notin> set (concat corpus)"
  shows "SENTENCE_START_TOKEN st \<notin> fst ` set (concat (map snd (init_ngram_dict rnd st n corpus))) \<and>
         SENTENCE_START_TOKEN st \<notin>
           set (sampled_tokens rnd st (init_ngram_dict rnd st n corpus)
                  (replicate (n - 1) (SENTENCE_START_TOKEN st)) draws)"
  using assms(2) words_of_init_ngram_dict [of rnd st n corpus]
    sampled_tokens_words [of rnd st "init_ngram_dict rnd st n corpus"
      "replicate (n - 1) (SENTENCE_START_TOKEN st)" draws]
  unfolding words_of_def by blast

theorem start_marker_never_sampled_witness:
  "(1::nat) \<le> 2 \<and>
   SENTENCE_START_TOKEN example_settings \<notin>
     set (concat [[''the'', ''cat'', ''sat'', ''.'', ''</s>''],
                  [''the'', ''cat'', ''ran'', ''.'', ''</s>'']]) \<and>
   SENTENCE_START_TOKEN example_settings \<notin>
     fst ` set (concat (map snd (init_ngram_dict exact example_settings 2
       [[''the'', ''cat'', ''sat'', ''.'', ''</s>''],
        [''the'', ''cat'', ''ran'', ''.'', ''</s>'']]))) \<and>
   SENTENCE_START_TOKEN example_settings \<notin>
     set (sampled_tokens exact example_settings
            (init_ngram_dict exact example_settings 2
               [[''the'', ''cat'', ''sat'', ''.'', ''</s>''],
                [''the'', ''cat'', ''ran'', ''.'', ''</s>'']])
            (replicate (2 - 1) (SENTENCE_START_TOKEN example_settings)) [0, 0, 3 / 4, 0, 0])"
proof -
  have a: "(1::nat) \<le> 2" by simp
  have b: "SENTENCE_START_TOKEN example_settings \<notin>
     set (concat [[''the'', ''cat'', ''sat'', ''.'', ''</s>''],
                  [''the'', ''cat'', ''ran'', ''.'', ''</s>'']])"
    by (simp add: example_settings_def)
  from a b start_marker_never_sampled [OF a b, of exact "[0, 0, 3 / 4, 0, 0]"]
  show ?thesis by blast
qed

section \<open>The sentence a call returns\<close>

lemma call_loop_sentence:
  assumes "snd (call_loop rnd st d sentence ctx draws) = Some (Inr s)"
  shows "\<exists>ts. sampled_tokens rnd st d ctx draws = ts @ [SENTENCE_END_TOKEN st] \<and>
              SENTENCE_END_TOKEN st \<notin> set ts \<and> s = foldl append_token sentence ts"
  using assms
proof (induction draws arbitrary: sentence ctx)
  case Nil
  then show ?case by simp
next
  case (Cons r draws)
  obtain d' res where g: "generate_token rnd d ctx r = (d', res)"
    by (cases "generate_token rnd d ctx r")
  show ?case
  proof (cases res)
    case (Inl e)
    with g Cons.prems show ?thesis by simp
  next
    case (Inr w)
    with g generate_token_word [of rnd d ctx r d' w] have d': "d' = d" by simp
    show ?thesis
    proof (cases "w = SENTENCE_END_TOKEN st")
      case True
      with g Inr Cons.prems show ?thesis by simp
    next
      case False
      with g Inr d' Cons.prems
      have "snd (call_loop rnd st d (append_token sentence w) (tl (ctx @ [w])) draws) = Some (Inr s)"
        by simp
      from Cons.IH [OF this] obtain ts
        where "sampled_tokens rnd st d (tl (ctx @ [w])) draws = ts @ [SENTENCE_END_TOKEN st]"
          and "SENTENCE_END_TOKEN st \<notin> set ts"
          and "s = foldl append_token (append_token sentence w) ts" by blast
      with g Inr d' False have
        "sampled_tokens rnd st d ctx (r # draws) = (w # ts) @ [SENTENCE_END_TOKEN st] \<and>
         SENTENCE_END_TOKEN st \<notin> set (w # ts) \<and> s = foldl append_token sentence (w # ts)"
        by simp
      then show ?thesis by blast
    qed
  qed
qed

lemma corpus_paren: "corpus_iter example_settings [''(hi.''] = [[''('', ''hi'', ''.'', ''</s>'']]"
  by (simp add: corpus_iter_def lower_def char_lower_def ascii_uppercase_def ascii_lowercase_def
      tokenize_def str_split_def whitespace_def tokenize_word_def strip_after.simps punctuation_def
      example_settings_def)

lemma table_paren:
  "init_ngram_dict exact example_settings 2 [[''('', ''hi'', ''.'', ''</s>'']] =
     [([''<s>''], [(''('', 1)]), ([''(''], [(''hi'', 1)]), ([''hi''], [(''.'', 1)]),
      ([''.''], [(''</s>'', 1)])]"
  by (simp add: init_ngram_dict_def count_corpus_def count_line_def increment_def slice_def
      to_probabilities_def normalize_counts_def exact_def example_settings_def)

lemma call_paren:
  "call exact example_settings 2
     [([''<s>''], [(''('', 1)]), ([''(''], [(''hi'', 1)]), ([''hi''], [(''.'', 1)]),
      ([''.''], [(''</s>'', 1)])] [0, 0, 0, 0] =
   ([([''<s>''], [(''('', 1)]), ([''(''], [(''hi'', 1)]), ([''hi''], [(''.'', 1)]),
      ([''.''], [(''</s>'', 1)])], Some (Inr ''( hi.''))"
  by (simp add: call_def generate_token_def dd_getitem_def exact_def example_settings_def
      append_token_def punctuation_def title_def)


text \<open>
  C7. The claim is that the first real word of a returned sentence is capitalized, that
  punctuation is appended without a space and that every later word follows one space.
  The loop takes a word for the beginning of the sentence when the text built so far is
  empty (\<^verbatim>\<open>elif sentence == '': # if beginning of the sentence\<close>). When a punctuation
  symbol is sampled first the text is not empty any more, so the first word is appended
  after a space and is not capitalized: the model of order 2 trained on the line
  \<^verbatim>\<open>(hi.\<close> returns \<^verbatim>\<open>( hi.\<close> and not \<^verbatim>\<open>(Hi.\<close>. The other parts of the claim hold (lemma
  \<open>call_loop_sentence\<close> with the definition of \<open>append_token\<close>).
\<close>

theorem first_word_after_punctuation:
  "snd (call exact example_settings 2
          (init_ngram_dict exact example_settings 2 (corpus_iter example_settings [''(hi.'']))
          [0, 0, 0, 0]) = Some (Inr ''( hi.'')"
  by (simp add: corpus_paren table_paren call_paren)












section \<open>A run of the generation loop that ends\<close>

lemma map_of_dd_modify:
  "map_of (dd_modify dflt k f ps) k' =
     (if k' = k then Some (f (case map_of ps k of None \<Rightarrow> dflt | Some v \<Rightarrow> v)) else map_of ps k')"
  by (induction ps) auto

lemma has_word_increment_same: "has_word (increment ctx w d) ctx w"
  by (simp add: has_word_def increment_def map_of_dd_modify dd_modify_keys)

lemma has_word_increment_mono:
  assumes "has_word d ctx w"
  shows "has_word (increment ctx' w' d) ctx w"
proof -
  from assms obtain wc where m: "map_of d ctx = Some wc" and k: "w \<in> fst ` set wc"
    unfolding has_word_def by blast
  show ?thesis
  proof (cases "ctx = ctx'")
    case True
    with m k show ?thesis
      by (simp add: has_word_def increment_def map_of_dd_modify dd_modify_keys)
  next
    case False
    with m k show ?thesis
      by (simp add: has_word_def increment_def map_of_dd_modify)
  qed
qed

lemma has_word_fold_mono:
  "has_word d ctx w \<Longrightarrow> has_word (fold (\<lambda>i d. increment (cx i) (wd i) d) is d) ctx w"
  by (induction "is" arbitrary: d) (simp_all add: has_word_increment_mono)

lemma has_word_fold_new:
  "i \<in> set is \<Longrightarrow> has_word (fold (\<lambda>i d. increment (cx i) (wd i) d) is d) (cx i) (wd i)"
proof (induction "is" arbitrary: d)
  case Nil
  then show ?case by simp
next
  case (Cons a "is")
  show ?case
  proof (cases "i = a")
    case True
    then show ?thesis
      by (simp add: has_word_fold_mono has_word_increment_same)
  next
    case False
    with Cons show ?thesis by simp
  qed
qed

lemma has_word_count_line_mono:
  "has_word d ctx w \<Longrightarrow> has_word (count_line st n line d) ctx w"
  unfolding count_line_def Let_def by (rule has_word_fold_mono)

lemma has_word_count_line_new:
  assumes "1 \<le> n" and "i < length line"
  shows "has_word (count_line st n line d)
           (window st n line i) (line ! i)"
proof -
  let ?tokens = "replicate (n - 1) (SENTENCE_START_TOKEN st) @ line"
  let ?i = "i + (n - 1)"
  have mem: "?i \<in> set [n - 1 ..< length ?tokens]" using assms(2) by simp
  have c: "slice ?tokens (?i + 1 - n) ?i = take (n - 1) (drop i ?tokens)"
    using assms(1) by (simp add: slice_def)
  have w: "?tokens ! ?i = line ! i" by (simp add: nth_append)
  from has_word_fold_new [OF mem, of "\<lambda>i. slice ?tokens (i + 1 - n) i" "\<lambda>i. ?tokens ! i" d]
  show ?thesis unfolding count_line_def Let_def c w window_def .
qed

lemma has_word_fold_count_line_mono:
  "has_word d ctx w \<Longrightarrow> has_word (fold (count_line st n) corpus d) ctx w"
  by (induction corpus arbitrary: d) (simp_all add: has_word_count_line_mono)

lemma has_word_count_corpus:
  assumes "1 \<le> n" and "line \<in> set corpus" and "i < length line"
  shows "has_word (count_corpus st n corpus)
           (window st n line i) (line ! i)"
proof -
  have "has_word (fold (count_line st n) corpus d)
          (window st n line i) (line ! i)"
    for d
    using assms(2)
  proof (induction corpus arbitrary: d)
    case Nil
    then show ?case by simp
  next
    case (Cons l corpus)
    show ?case
    proof (cases "line = l")
      case True
      with has_word_fold_count_line_mono [OF has_word_count_line_new [OF assms(1) assms(3)]]
      show ?thesis by simp
    next
      case False
      with Cons show ?thesis by simp
    qed
  qed
  then show ?thesis by (simp add: count_corpus_def)
qed

lemma map_of_to_probabilities:
  "map_of (to_probabilities rnd d) ctx = map_option (normalize_counts rnd) (map_of d ctx)"
  by (induction d) (auto simp: to_probabilities_def)

lemma has_word_init_ngram_dict:
  assumes "1 \<le> n" and "line \<in> set corpus" and "i < length line"
  shows "has_word (init_ngram_dict rnd st n corpus)
           (window st n line i) (line ! i)"
proof -
  from has_word_count_corpus [OF assms] obtain wc
    where m: "map_of (count_corpus st n corpus)
                (window st n line i) = Some wc"
      and k: "line ! i \<in> fst ` set wc"
    unfolding has_word_def by blast
  have "fst ` set (normalize_counts rnd wc) = fst ` set wc"
    using map_fst_normalize_counts [of rnd wc] by (metis set_map)
  with m k show ?thesis
    by (simp add: has_word_def init_ngram_dict_def map_of_to_probabilities)
qed

lemma normalize_counts_exact_pos:
  assumes "counted word_counts" and "q \<in> set (normalize_counts exact word_counts)"
  shows "0 < snd q"
proof -
  from assms(1) have t: "0 < sum_list (map snd word_counts)" by (rule counted_total_pos)
  from assms(2) obtain w c where "(w, c) \<in> set word_counts"
    and q: "q = (w, of_nat c / of_nat (sum_list (map snd word_counts)))"
    by (auto simp: normalize_counts_def exact_def)
  with assms(1) have "0 < c" by (auto simp: counted_def)
  with t q show ?thesis by simp
qed

lemma init_ngram_dict_exact_pos:
  assumes "(ctx, word_probs) \<in> set (init_ngram_dict exact st n corpus)"
    and "q \<in> set word_probs"
  shows "0 < snd q"
proof -
  from init_ngram_dict_entry [OF assms(1)] obtain word_counts
    where a: "(ctx, word_counts) \<in> set (count_corpus st n corpus)"
      and b: "word_probs = normalize_counts exact word_counts" by blast
  from a all_counted_count_corpus [of st n corpus] have "counted (snd (ctx, word_counts))"
    unfolding all_counted_def by blast
  with assms(2) b show ?thesis by (simp add: normalize_counts_exact_pos)
qed

lemma pick_exists:
  assumes "\<forall>q \<in> set word_probs. 0 < snd q" and "w \<in> fst ` set word_probs"
  shows "\<exists>r. s < r \<and> r < s + sum_list (map snd word_probs) \<and> pick exact r s word_probs = Inr w"
  using assms
proof (induction word_probs arbitrary: s)
  case Nil
  then show ?case by simp
next
  case (Cons a word_probs)
  obtain w' p where a: "a = (w', p)" by (cases a)
  from Cons.prems(1) a have p: "0 < p" by simp
  have rest: "0 \<le> sum_list (map snd word_probs)"
  proof (rule sum_list_nonneg)
    fix x assume "x \<in> set (map snd word_probs)"
    then obtain q where "q \<in> set word_probs" and "x = snd q" by auto
    with Cons.prems(1) show "0 \<le> x" by (simp add: less_imp_le)
  qed
  show ?case
  proof (cases "w' = w")
    case True
    let ?r = "s + p / 2"
    have "s < ?r" using p by simp
    moreover have "?r < s + sum_list (map snd (a # word_probs))" using p rest a by simp
    moreover have "pick exact ?r s (a # word_probs) = Inr w"
      using p a True by (simp add: exact_def)
    ultimately show ?thesis by blast
  next
    case False
    with Cons.prems(2) a have "w \<in> fst ` set word_probs" by auto
    with Cons.IH [of "s + p"] Cons.prems(1) obtain r
      where r: "s + p < r" "r < s + p + sum_list (map snd word_probs)"
        "pick exact r (s + p) word_probs = Inr w" by auto
    have "s < r" using r(1) p by simp
    moreover have "r < s + sum_list (map snd (a # word_probs))" using r(2) a by (simp add: add.assoc)
    moreover have "pick exact r s (a # word_probs) = Inr w"
      using r(1) r(3) a by (simp add: exact_def)
    ultimately show ?thesis by blast
  qed
qed

lemma generate_token_exists:
  assumes "has_word (init_ngram_dict exact st n corpus) ctx w"
  shows "\<exists>r. 0 \<le> r \<and> r < 1 \<and>
           generate_token exact (init_ngram_dict exact st n corpus) ctx r =
             (init_ngram_dict exact st n corpus, Inr w)"
proof -
  let ?T = "init_ngram_dict exact st n corpus"
  from assms obtain word_probs where m: "map_of ?T ctx = Some word_probs"
    and k: "w \<in> fst ` set word_probs" unfolding has_word_def by blast
  from m have mem: "(ctx, word_probs) \<in> set ?T" by (rule map_of_SomeD)
  have pos: "\<forall>q \<in> set word_probs. 0 < snd q"
    using init_ngram_dict_exact_pos [OF mem] by blast
  have sum: "sum_list (map snd word_probs) = 1" using mem by (rule init_ngram_dict_exact_sum)
  from pick_exists [OF pos k, of 0] sum obtain r
    where "0 < r" "r < 1" "pick exact r 0 word_probs = Inr w" by auto
  with m show ?thesis by (auto simp: generate_token_present intro!: exI [of _ r])
qed

lemma window_0: "window st n line 0 = replicate (n - 1) (SENTENCE_START_TOKEN st)"
  by (simp add: window_def)

lemma tl_take_drop_snoc:
  assumes "i + m < length xs"
  shows "tl (take m (drop i xs) @ [xs ! (i + m)]) = take m (drop (Suc i) xs)"
proof -
  have "m < length (drop i xs)" using assms by simp
  from take_Suc_conv_app_nth [OF this] assms
  have "take m (drop i xs) @ [xs ! (i + m)] = take (Suc m) (drop i xs)" by simp
  then have "tl (take m (drop i xs) @ [xs ! (i + m)]) = take m (tl (drop i xs))"
    by (simp add: tl_take)
  also have "tl (drop i xs) = drop (Suc i) xs"
    by (simp add: tl_drop drop_Suc)
  finally show ?thesis .
qed

lemma window_shift:
  assumes "i < length line"
  shows "tl (window st n line i @ [line ! i]) = window st n line (Suc i)"
proof -
  define tokens where "tokens = replicate (n - 1) (SENTENCE_START_TOKEN st) @ line"
  have len: "i + (n - 1) < length tokens" using assms by (simp add: tokens_def)
  have nth: "line ! i = tokens ! (i + (n - 1))" by (simp add: tokens_def nth_append)
  have w: "window st n line k = take (n - 1) (drop k tokens)" for k
    by (simp only: window_def tokens_def)
  show ?thesis unfolding w nth by (rule tl_take_drop_snoc [OF len])
qed

lemma sum_list_bump:
  "sum_list (map snd (dd_modify 0 w (\<lambda>c. c + 1) word_counts)) =
     sum_list (map snd word_counts) + (1::nat)"
  by (induction word_counts) auto















lemma path_to_end_any:
  assumes sel: "\<And>i. i < length line \<Longrightarrow>
      \<exists>r. 0 \<le> r \<and> r < 1 \<and> generate_token rnd T (window st n line i) r = (T, Inr (line ! i))"
    and j: "j < length line"
    and e: "line ! j = SENTENCE_END_TOKEN st"
    and first: "\<forall>k<j. line ! k \<noteq> SENTENCE_END_TOKEN st"
  shows "i + k = j \<Longrightarrow>
    \<exists>draws s. length draws = Suc k \<and> set draws \<subseteq> {0..<1} \<and>
      call_loop rnd st T sentence (window st n line i) draws = (T, Some (Inr s))"
proof (induction k arbitrary: i sentence)
  case 0
  then have i: "i = j" by simp
  from sel [OF j] e obtain r
    where r: "0 \<le> r" "r < 1"
      "generate_token rnd T (window st n line j) r = (T, Inr (SENTENCE_END_TOKEN st))" by auto
  have "length [r] = Suc 0 \<and> set [r] \<subseteq> {0..<1} \<and>
      call_loop rnd st T sentence (window st n line i) [r] = (T, Some (Inr sentence))"
    using r i by simp
  then show ?case by blast
next
  case (Suc k)
  then have i: "i < j" and i': "Suc i + k = j" by simp_all
  from i j have il: "i < length line" by simp
  from first i have ne: "line ! i \<noteq> SENTENCE_END_TOKEN st" by simp
  from sel [OF il] obtain r
    where r: "0 \<le> r" "r < 1"
      "generate_token rnd T (window st n line i) r = (T, Inr (line ! i))" by auto
  from Suc.IH [OF i', of "append_token sentence (line ! i)"] obtain draws s
    where d: "length draws = Suc k" "set draws \<subseteq> {0..<1}"
      "call_loop rnd st T (append_token sentence (line ! i)) (window st n line (Suc i)) draws =
         (T, Some (Inr s))"
    by blast
  have "length (r # draws) = Suc (Suc k) \<and> set (r # draws) \<subseteq> {0..<1} \<and>
      call_loop rnd st T sentence (window st n line i) (r # draws) = (T, Some (Inr s))"
    using r d ne window_shift [OF il, of st n] by simp
  then show ?case by blast
qed

lemma generation_can_end_any:
  assumes n: "1 \<le> n" and mem: "line \<in> set corpus" and e: "SENTENCE_END_TOKEN st \<in> set line"
    and sel: "\<And>ctx w. has_word (init_ngram_dict rnd st n corpus) ctx w \<Longrightarrow>
      \<exists>r. 0 \<le> r \<and> r < 1 \<and>
        generate_token rnd (init_ngram_dict rnd st n corpus) ctx r =
          (init_ngram_dict rnd st n corpus, Inr w)"
  shows "\<exists>draws s. length draws \<le> length line \<and> set draws \<subseteq> {0..<1} \<and>
           call rnd st n (init_ngram_dict rnd st n corpus) draws =
             (init_ngram_dict rnd st n corpus, Some (Inr s))"
proof -
  let ?T = "init_ngram_dict rnd st n corpus"
  from split_list_first [OF e] obtain ys zs
    where l: "line = ys @ SENTENCE_END_TOKEN st # zs" and f: "SENTENCE_END_TOKEN st \<notin> set ys"
    by blast
  let ?j = "length ys"
  have j: "?j < length line" using l by simp
  have ej: "line ! ?j = SENTENCE_END_TOKEN st" using l by simp
  have first: "\<forall>k<?j. line ! k \<noteq> SENTENCE_END_TOKEN st"
  proof (intro allI impI)
    fix k assume "k < ?j"
    then have "line ! k = ys ! k" and "ys ! k \<in> set ys" using l by (simp_all add: nth_append)
    with f show "line ! k \<noteq> SENTENCE_END_TOKEN st" by metis
  qed
  have step: "\<exists>r. 0 \<le> r \<and> r < 1 \<and> generate_token rnd ?T (window st n line i) r = (?T, Inr (line ! i))"
    if "i < length line" for i
    using sel [OF has_word_init_ngram_dict [OF n mem that]] .
  from path_to_end_any [of line rnd ?T st n ?j 0 ?j "[]", OF step j ej first] obtain draws s
    where "length draws = Suc ?j" "set draws \<subseteq> {0..<1}"
      "call_loop rnd st ?T [] (window st n line 0) draws = (?T, Some (Inr s))" by auto
  with j have "length draws \<le> length line \<and> set draws \<subseteq> {0..<1} \<and>
           call rnd st n ?T draws = (?T, Some (Inr s))"
    by (simp add: call_def window_0)
  then show ?thesis by blast
qed


lemma generation_can_end_exact:
  assumes "1 \<le> n" and "line \<in> set corpus" and "SENTENCE_END_TOKEN st \<in> set line"
  shows "\<exists>draws s. length draws \<le> length line \<and> set draws \<subseteq> {0..<1} \<and>
           call exact st n (init_ngram_dict exact st n corpus) draws =
             (init_ngram_dict exact st n corpus, Some (Inr s))"
  using assms by (rule generation_can_end_any) (rule generate_token_exists)



end
